theory Spec2Isabelle
  imports Main "HOL-Library.AList" "HOL-Library.Char_ord"
begin

section \<open>Values and errors\<close>

text \<open>
  The template engine of \<^verbatim>\<open>markup/template.py\<close> is written in Python 2.  The values
  that flow through a template context are Python objects; the development uses the
  fragment below: \<^verbatim>\<open>None\<close>, booleans, integers, strings, lists, tuples, dicts whose
  keys are strings (in the order in which the dict iterates them) and \<open>PCallable n\<close>, the
  callable that the \<^verbatim>\<open>py:def\<close> directive number \<open>n\<close> binds into the context.
\<close>

datatype pyval =
    PNone
  | PBool bool
  | PInt int
  | PStr string
  | PList "pyval list"
  | PTuple "pyval list"
  | PDict "(string \<times> pyval) list"
  | PCallable nat

text \<open>
  Every \<^verbatim>\<open>raise\<close>, failed \<^verbatim>\<open>assert\<close> and failing builtin of the source is a value of
  \<open>error\<close>.  \<open>SyntaxError text lineno off\<close> carries what \<^verbatim>\<open>str(err)\<close> returns and
  the optional attributes \<^verbatim>\<open>lineno\<close> and \<^verbatim>\<open>offset\<close>;
  \<open>TemplateSyntaxError msg filename lineno offset\<close> has the message and the fields set
  by the constructor of the class of that name.  \<open>NotModelled\<close> is not a Python exception:
  it marks the few places where the source goes on with an object of a shape that this
  development does not represent (say, a \<^verbatim>\<open>py:attrs\<close> key that is not a string); no
  statement below draws a conclusion about the source from that outcome.
\<close>

datatype error =
    AssertionError string
  | IndexError
  | KeyError
  | TypeError
  | ValueError
  | AttributeError
  | UnboundLocalError
  | ZeroDivisionError
  | UnicodeEncodeError
  | SyntaxError string "int option" "int option"
  | TemplateSyntaxError string string int int
  | BadDirectiveError string string int
  | NotModelled

section \<open>Context\<close>

text \<open>
  \<^verbatim>\<open>class Context\<close>: a stack of frames, the most recently pushed frame first.  A frame
  is a Python dict with string keys, kept as an association list read with \<open>map_of\<close>.
\<close>

type_synonym frame = "(string \<times> pyval) list"

record Context =
  stack :: "frame list"

definition Context_init :: "frame \<Rightarrow> Context" where
  "Context_init data = \<lparr>stack = [data]\<rparr>"

text \<open>\<^verbatim>\<open>get\<close>: the first frame holding the key decides; the loop falling through returns
  \<^verbatim>\<open>None\<close>.\<close>

fun get_frames :: "frame list \<Rightarrow> string \<Rightarrow> pyval" where
  "get_frames [] key = PNone"
| "get_frames (fr # frs) key =
     (case map_of fr key of Some v \<Rightarrow> v | None \<Rightarrow> get_frames frs key)"

definition get :: "Context \<Rightarrow> string \<Rightarrow> pyval" where
  "get c key = get_frames (stack c) key"

text \<open>\<^verbatim>\<open>__setitem__\<close>: \<^verbatim>\<open>self.stack[0][key] = value\<close>; indexing an empty list raises.\<close>

definition setitem :: "Context \<Rightarrow> string \<Rightarrow> pyval \<Rightarrow> error + Context" where
  "setitem c key v =
     (case stack c of
        [] \<Rightarrow> Inl IndexError
      | fr # frs \<Rightarrow> Inr (c\<lparr>stack := AList.update key v fr # frs\<rparr>))"

text \<open>\<^verbatim>\<open>push\<close>: \<^verbatim>\<open>self.stack.insert(0, data)\<close>.\<close>

definition push :: "frame \<Rightarrow> Context \<Rightarrow> Context" where
  "push data c = c\<lparr>stack := data # stack c\<rparr>"

text \<open>\<^verbatim>\<open>pop\<close>: \<^verbatim>\<open>assert self.stack, 'Pop from empty context stack'\<close>, then
  \<^verbatim>\<open>self.stack.pop(0)\<close>.  The assertion looks at the stack before the removal.\<close>

definition pop :: "Context \<Rightarrow> error + Context" where
  "pop c =
     (if stack c = [] then Inl (AssertionError ''Pop from empty context stack'')
      else Inr (c\<lparr>stack := tl (stack c)\<rparr>))"

text \<open>Sequences of operations on one context, stopping at the first error.\<close>

datatype ctxt_op = OpPush frame | OpPop | OpSet string pyval

fun apply_ctxt_op :: "Context \<Rightarrow> ctxt_op \<Rightarrow> error + Context" where
  "apply_ctxt_op c (OpPush data) = Inr (push data c)"
| "apply_ctxt_op c OpPop = pop c"
| "apply_ctxt_op c (OpSet key v) = setitem c key v"

fun run_ctxt_ops :: "Context \<Rightarrow> ctxt_op list \<Rightarrow> error + Context" where
  "run_ctxt_ops c [] = Inr c"
| "run_ctxt_ops c (x # xs) =
     (case apply_ctxt_op c x of Inl e \<Rightarrow> Inl e | Inr c' \<Rightarrow> run_ctxt_ops c' xs)"

fun is_push :: "ctxt_op \<Rightarrow> bool" where
  "is_push (OpPush _) = True"
| "is_push _ = False"

fun is_pop :: "ctxt_op \<Rightarrow> bool" where
  "is_pop OpPop = True"
| "is_pop _ = False"

section \<open>Events\<close>

text \<open>
  An event is the triple \<^verbatim>\<open>(kind, data, pos)\<close>.  The payload depends on the kind by
  convention only, so \<open>data\<close> lists the shapes that occur: \<^verbatim>\<open>(tag, attrib)\<close> of a START
  event, the tag of an END event, a string (TEXT, COMMENT, the prefix of \<^verbatim>\<open>END_NS\<close>), a tuple
  of strings (\<^verbatim>\<open>START_NS\<close>, PI, DOCTYPE), the expression of an \<^verbatim>\<open>EXPR\<close> event (\<^verbatim>\<open>None\<close> when
  the directive attribute was empty) and the pair \<^verbatim>\<open>(directives, substream)\<close> of a
  \<^verbatim>\<open>SUB\<close> event.  The directive list of a \<^verbatim>\<open>SUB\<close> event is a Python list that
  \<^verbatim>\<open>generate\<close> mutates in place and that is shared by every copy of the event, so the
  event holds its address and the list lives in the store (\<open>dirlists\<close> below).  An
  \<^verbatim>\<open>Expression\<close> is kept as its source text.  After parsing, the value of an ordinary
  attribute is the list of events that \<^verbatim>\<open>_interpolate\<close> returns for it; a value set by
  \<^verbatim>\<open>py:attrs\<close> is a string.
\<close>

type_synonym pos = "int \<times> int"

type_synonym Expression = string

datatype qname = QName (namespace: "string option") (localname: string)

datatype kind = START | END | TEXT | START_NS | END_NS | COMMENT | PI | DOCTYPE | EXPR | SUB

datatype event = Event kind data pos
and data =
    DStart qname "(qname \<times> attrval) list"
  | DName qname
  | DText string
  | DTuple "string list"
  | DExpr "Expression option"
  | DSub nat "event list"
and attrval = AText string | AEvents "event list"

section \<open>Interpolation\<close>

text \<open>
  The two patterns of \<^verbatim>\<open>Template\<close>:
  \<^verbatim>\<open>_FULL_EXPR_RE = (?<!\$)\$\{(.+?)\}\<close> and
  \<^verbatim>\<open>_SHORT_EXPR_RE = (?<!\$)\$([a-zA-Z][a-zA-Z0-9_\.]*)\<close>.
  Both start with a dollar sign that no dollar sign precedes.  \<open>match_after_dollar\<close>
  matches what follows that dollar sign and returns the group and the text after the
  match.  For the braced form the group is lazy: at least one character, none of them a
  newline (\<^verbatim>\<open>.\<close> does not match it), up to the first closing brace after the first
  character.  For the short form the group is a letter and the longest run of name
  characters after it.
\<close>

datatype pattern = FULL_EXPR_RE | SHORT_EXPR_RE

definition is_alpha :: "char \<Rightarrow> bool" where
  "is_alpha c = ((CHR ''a'' \<le> c \<and> c \<le> CHR ''z'') \<or> (CHR ''A'' \<le> c \<and> c \<le> CHR ''Z''))"

definition is_name_char :: "char \<Rightarrow> bool" where
  "is_name_char c = (is_alpha c \<or> (CHR ''0'' \<le> c \<and> c \<le> CHR ''9'') \<or> c = CHR ''_'' \<or> c = CHR ''.'')"

fun lazy_until_brace :: "string \<Rightarrow> string \<Rightarrow> (string \<times> string) option" where
  "lazy_until_brace acc [] = None"
| "lazy_until_brace acc (c # cs) =
     (if c = CHR ''}'' then Some (acc, cs)
      else if c = CHR 0x0A then None
      else lazy_until_brace (acc @ [c]) cs)"

fun match_after_dollar :: "pattern \<Rightarrow> string \<Rightarrow> (string \<times> string) option" where
  "match_after_dollar FULL_EXPR_RE (c # d # cs) =
     (if c = CHR ''{'' \<and> d \<noteq> CHR 0x0A then lazy_until_brace [d] cs else None)"
| "match_after_dollar FULL_EXPR_RE _ = None"
| "match_after_dollar SHORT_EXPR_RE (c # cs) =
     (if is_alpha c then Some (c # takeWhile is_name_char cs, dropWhile is_name_char cs) else None)"
| "match_after_dollar SHORT_EXPR_RE [] = None"

lemma lazy_until_brace_shorter:
  "lazy_until_brace acc cs = Some (g, rest) \<Longrightarrow> length rest < length cs"
  by (induction acc cs rule: lazy_until_brace.induct) (auto split: if_splits)

lemma match_after_dollar_shorter:
  "match_after_dollar p cs = Some (g, rest) \<Longrightarrow> length rest < length cs"
  by (induction p cs rule: match_after_dollar.induct)
     (auto split: if_splits dest!: lazy_until_brace_shorter
           simp: less_Suc_eq_le length_dropWhile_le)

text \<open>
  \<^verbatim>\<open>pattern.split(text)\<close> with one group: the text before each match and the group of
  the match alternate, the text after the last match comes last.  The scan goes from
  left to right and resumes after each match; \<open>prev_dollar\<close> says whether the character
  before the current one is a dollar sign (the lookbehind), \<open>acc\<close> is the text since the
  last match.
\<close>

function re_split :: "pattern \<Rightarrow> bool \<Rightarrow> string \<Rightarrow> string \<Rightarrow> string list" where
  "re_split p prev_dollar acc [] = [acc]"
| "re_split p prev_dollar acc (c # cs) =
     (if c = CHR ''$'' \<and> \<not> prev_dollar then
        (case match_after_dollar p cs of
           Some (g, rest) \<Rightarrow> acc # g # re_split p False [] rest
         | None \<Rightarrow> re_split p True (acc @ [c]) cs)
      else re_split p (c = CHR ''$'') (acc @ [c]) cs)"
  by pat_completeness auto
termination
  by (relation "measure (\<lambda>(p, d, acc, cs). length cs)")
     (auto dest: match_after_dollar_shorter)

definition split :: "pattern \<Rightarrow> string \<Rightarrow> string list" where
  "split p text = re_split p False [] text"

text \<open>\<^verbatim>\<open>group.replace('$$', '$')\<close>: occurrences are replaced from left to right and do
  not overlap.\<close>

fun replace_dollars :: "string \<Rightarrow> string" where
  "replace_dollars (c # d # cs) =
     (if c = CHR ''$'' \<and> d = CHR ''$'' then CHR ''$'' # replace_dollars cs
      else c # replace_dollars (d # cs))"
| "replace_dollars cs = cs"

text \<open>
  \<^verbatim>\<open>Template._interpolate\<close>.  The local list \<^verbatim>\<open>patterns\<close> is shared by all the calls of
  the inner generator and each call removes its first element (\<^verbatim>\<open>patterns.pop(0)\<close>), so
  the list is passed in and returned.  \<open>interpolate_groups\<close> is the loop
  \<^verbatim>\<open>for idx, group in enumerate(...)\<close>; its argument \<open>recur\<close> is the recursive call.
  The recursion of the inner generator is bounded by a counter: \<open>None\<close> means that the
  counter ran out, \<open>Some (Inl e)\<close> that \<open>e\<close> was raised (\<^verbatim>\<open>pop\<close> on an empty list).  Both
  callers (\<^verbatim>\<open>parse\<close>, for text and for attribute values) consume the generator to its
  end, so the result is the list of the events it yields.
\<close>

type_synonym interp_result = "(error + event list \<times> pattern list) option"

fun interpolate_groups ::
  "(pattern list \<Rightarrow> string \<Rightarrow> interp_result) \<Rightarrow> pos \<Rightarrow> nat \<Rightarrow> string list \<Rightarrow> pattern list \<Rightarrow> interp_result"
where
  "interpolate_groups recur p idx [] patterns = Some (Inr ([], patterns))"
| "interpolate_groups recur p idx (grp # grps) patterns =
     (if idx mod 2 = 1 then
        (case interpolate_groups recur p (idx + 1) grps patterns of
           Some (Inr (evs, patterns')) \<Rightarrow> Some (Inr (Event EXPR (DExpr (Some grp)) p # evs, patterns'))
         | r \<Rightarrow> r)
      else if grp \<noteq> [] then
        (if patterns \<noteq> [] then
           (case recur patterns grp of
              Some (Inr (evs1, patterns1)) \<Rightarrow>
                (case interpolate_groups recur p (idx + 1) grps patterns1 of
                   Some (Inr (evs2, patterns2)) \<Rightarrow> Some (Inr (evs1 @ evs2, patterns2))
                 | r \<Rightarrow> r)
            | r \<Rightarrow> r)
         else
           (case interpolate_groups recur p (idx + 1) grps patterns of
              Some (Inr (evs, patterns')) \<Rightarrow>
                Some (Inr (Event TEXT (DText (replace_dollars grp)) p # evs, patterns'))
            | r \<Rightarrow> r))
      else interpolate_groups recur p (idx + 1) grps patterns)"

fun interpolate_inner :: "nat \<Rightarrow> pos \<Rightarrow> pattern list \<Rightarrow> string \<Rightarrow> interp_result" where
  "interpolate_inner 0 p patterns text = None"
| "interpolate_inner (Suc n) p patterns text =
     (case patterns of
        [] \<Rightarrow> Some (Inl IndexError)
      | pat # patterns' \<Rightarrow>
          interpolate_groups (interpolate_inner n p) p 0 (split pat text) patterns')"

definition interpolate :: "string \<Rightarrow> pos \<Rightarrow> (error + event list) option" where
  "interpolate text p =
     map_option (map_sum id fst)
       (interpolate_inner 2 p [FULL_EXPR_RE, SHORT_EXPR_RE] text)"

section \<open>Operations on values\<close>

text \<open>Truth value of an object, as \<^verbatim>\<open>if attrs:\<close> and \<^verbatim>\<open>if strip:\<close> test it.\<close>

fun truthy :: "pyval \<Rightarrow> bool" where
  "truthy PNone = False"
| "truthy (PBool b) = b"
| "truthy (PInt i) = (i \<noteq> 0)"
| "truthy (PStr s) = (s \<noteq> [])"
| "truthy (PList xs) = (xs \<noteq> [])"
| "truthy (PTuple xs) = (xs \<noteq> [])"
| "truthy (PDict kvs) = (kvs \<noteq> [])"
| "truthy (PCallable n) = True"

text \<open>\<^verbatim>\<open>iter(x)\<close>, as the items it produces: a dict iterates its keys, a string its
  characters; \<^verbatim>\<open>None\<close>, numbers and callables are not iterable.\<close>

fun py_iter :: "pyval \<Rightarrow> error + pyval list" where
  "py_iter (PList xs) = Inr xs"
| "py_iter (PTuple xs) = Inr xs"
| "py_iter (PStr s) = Inr (map (\<lambda>c. PStr [c]) s)"
| "py_iter (PDict kvs) = Inr (map (\<lambda>(k, v). PStr k) kvs)"
| "py_iter _ = Inl TypeError"

text \<open>\<^verbatim>\<open>item[idx]\<close> for an index \<open>idx\<close> that \<^verbatim>\<open>enumerate\<close> produces (never negative).
  A dict with string keys has no integer key.\<close>

fun py_getitem :: "pyval \<Rightarrow> nat \<Rightarrow> error + pyval" where
  "py_getitem (PList xs) i = (if i < length xs then Inr (xs ! i) else Inl IndexError)"
| "py_getitem (PTuple xs) i = (if i < length xs then Inr (xs ! i) else Inl IndexError)"
| "py_getitem (PStr s) i = (if i < length s then Inr (PStr [s ! i]) else Inl IndexError)"
| "py_getitem (PDict kvs) i = Inl KeyError"
| "py_getitem _ i = Inl TypeError"

text \<open>The tuple assignment \<^verbatim>\<open>name, value = x\<close>.\<close>

definition unpack2 :: "pyval \<Rightarrow> error + pyval \<times> pyval" where
  "unpack2 v =
     (case py_iter v of
        Inl e \<Rightarrow> Inl e
      | Inr [a, b] \<Rightarrow> Inr (a, b)
      | Inr _ \<Rightarrow> Inl ValueError)"

text \<open>\<^verbatim>\<open>unicode.strip()\<close>: the whitespace characters of Unicode below 256 are 9 to 13,
  28 to 32, 133 and 160.\<close>

definition is_space :: "char \<Rightarrow> bool" where
  "is_space c = ((CHR 0x09 \<le> c \<and> c \<le> CHR 0x0D) \<or> (CHR 0x1C \<le> c \<and> c \<le> CHR 0x20) \<or>
                 c = CHR 0x85 \<or> c = CHR 0xA0)"

definition py_strip :: "string \<Rightarrow> string" where
  "py_strip s = rev (dropWhile is_space (rev (dropWhile is_space s)))"

section \<open>Attributes\<close>

text \<open>
  Modelled from the spec: class \<^verbatim>\<open>Attributes\<close> of \<^verbatim>\<open>markup.core\<close> is not among the
  sources.  The spec calls it the element's attribute set, in which a key can be removed
  (``removes that attribute'') and set (``stringified and set'').  It is the list of
  \<^verbatim>\<open>(name, value)\<close> pairs of the start tag: \<open>attrib_remove\<close> deletes the pairs of a
  name, \<open>attrib_set\<close> replaces the value of a name that is present and appends the pair
  otherwise.  A key given by \<^verbatim>\<open>py:attrs\<close> is taken as a name without namespace.
\<close>

type_synonym attrs = "(qname \<times> attrval) list"

definition attrib_remove :: "string \<Rightarrow> attrs \<Rightarrow> attrs" where
  "attrib_remove name attrib = AList.delete (QName None name) attrib"

definition attrib_set :: "string \<Rightarrow> string \<Rightarrow> attrs \<Rightarrow> attrs" where
  "attrib_set name v attrib = AList.update (QName None name) (AText v) attrib"

section \<open>Collaborators and store\<close>

text \<open>
  What a template takes from outside \<^verbatim>\<open>template.py\<close> is a parameter of the model:
  \<^item> \<open>evaluate src ctxt default\<close> is \<^verbatim>\<open>Expression(src).evaluate(ctxt, default)\<close>
    of \<^verbatim>\<open>markup.eval\<close>, which returns a value or raises;
  \<^item> \<open>unicode_of\<close> is the builtin \<^verbatim>\<open>unicode()\<close>;
  \<^item> \<open>filter_event\<close> stands for \<^verbatim>\<open>chain(self.pre_filters, self.filters)\<close>: the
    filters are generators over the stream, taken here as a map from one event to the
    events that replace it, which reads the context at the moment the event is pulled;
  \<^item> \<open>filename\<close> is \<^verbatim>\<open>self.filename\<close>.
\<close>

record env =
  evaluate :: "Expression \<Rightarrow> Context \<Rightarrow> pyval \<Rightarrow> error + pyval"
  unicode_of :: "pyval \<Rightarrow> string"
  filter_event :: "Context \<Rightarrow> event \<Rightarrow> error + event list"
  filename :: string

text \<open>\<^verbatim>\<open>self.expr.evaluate(ctxt, default)\<close>; \<^verbatim>\<open>self.expr\<close> is \<^verbatim>\<open>None\<close> when the
  directive attribute was empty, and \<^verbatim>\<open>None\<close> has no attribute \<^verbatim>\<open>evaluate\<close>.\<close>

definition eval_expr :: "env \<Rightarrow> Expression option \<Rightarrow> Context \<Rightarrow> pyval \<Rightarrow> error + pyval" where
  "eval_expr E eo c dflt =
     (case eo of None \<Rightarrow> Inl AttributeError | Some e \<Rightarrow> evaluate E e c dflt)"

text \<open>
  The directive objects.  A directive holds its expression (\<^verbatim>\<open>self.expr\<close>);
  \<^verbatim>\<open>DefDirective\<close> holds \<^verbatim>\<open>name\<close>, \<^verbatim>\<open>args\<close> and \<^verbatim>\<open>defaults\<close>, \<^verbatim>\<open>MatchDirective\<close> its
  \<^verbatim>\<open>path\<close>, \<^verbatim>\<open>ForDirective\<close> its \<^verbatim>\<open>targets\<close>.  The field \<^verbatim>\<open>stream\<close> of a
  \<^verbatim>\<open>DefDirective\<close> or \<^verbatim>\<open>MatchDirective\<close> is assigned at run time; the object is
  identified by a number and the field lives in the store (\<open>captured\<close>).
\<close>

datatype directive =
    DefDirective nat string "string list" frame
  | MatchDirective nat string
  | ForDirective "string list" "Expression option"
  | IfDirective "Expression option"
  | ReplaceDirective "Expression option"
  | ContentDirective "Expression option"
  | AttrsDirective "Expression option"
  | StripDirective "Expression option"

text \<open>
  The mutable objects of one template and one \<^verbatim>\<open>generate\<close> call: the context, the
  directive list of every \<^verbatim>\<open>SUB\<close> event (by address) and the captured stream of
  every \<^verbatim>\<open>py:def\<close> and \<^verbatim>\<open>py:match\<close> directive (by number).
\<close>

record state =
  ctxt :: Context
  dirlists :: "nat \<Rightarrow> directive list"
  captured :: "nat \<Rightarrow> event list"

section \<open>Directive bodies\<close>

text \<open>
  \<^verbatim>\<open>AttrsDirective.__call__\<close>, from the first event of the stream to the first
  \<^verbatim>\<open>yield\<close>.  \<open>attrs_pairs\<close> is \<^verbatim>\<open>if not isinstance(attrs, list): attrs = attrs.items()\<close>,
  \<open>merge_attrs\<close> the loop \<^verbatim>\<open>for name, value in attrs\<close>.  \<open>attrs_first\<close> starts with the
  tuple assignment \<^verbatim>\<open>kind, (tag, attrib), pos = stream.next()\<close>, which needs a payload
  of two parts.
\<close>

definition attrs_pairs :: "pyval \<Rightarrow> error + pyval list" where
  "attrs_pairs attrs =
     (case attrs of
        PList xs \<Rightarrow> Inr xs
      | PDict kvs \<Rightarrow> Inr (map (\<lambda>(k, v). PTuple [PStr k, v]) kvs)
      | _ \<Rightarrow> Inl AttributeError)"

fun merge_attrs :: "env \<Rightarrow> pyval list \<Rightarrow> attrs \<Rightarrow> error + attrs" where
  "merge_attrs E [] attrib = Inr attrib"
| "merge_attrs E (x # xs) attrib =
     (case unpack2 x of
        Inl e \<Rightarrow> Inl e
      | Inr (name, v) \<Rightarrow>
          (case name of
             PStr s \<Rightarrow>
               if v = PNone then merge_attrs E xs (attrib_remove s attrib)
               else merge_attrs E xs (attrib_set s (py_strip (unicode_of E v)) attrib)
           | _ \<Rightarrow> Inl NotModelled))"

definition attrs_first :: "env \<Rightarrow> Expression option \<Rightarrow> Context \<Rightarrow> event \<Rightarrow> error + event" where
  "attrs_first E eo c ev =
     (case ev of Event k d p \<Rightarrow>
        (case d of
           DStart tag attrib \<Rightarrow>
             (case eval_expr E eo c PNone of
                Inl e \<Rightarrow> Inl e
              | Inr attrs \<Rightarrow>
                  if truthy attrs then
                    (case attrs_pairs attrs of
                       Inl e \<Rightarrow> Inl e
                     | Inr elems \<Rightarrow>
                         (case merge_attrs E elems attrib of
                            Inl e \<Rightarrow> Inl e
                          | Inr attrib' \<Rightarrow> Inr (Event k (DStart tag attrib') p)))
                  else Inr (Event k (DStart tag attrib) p))
         | DExpr x \<Rightarrow> Inl TypeError
         | DText s \<Rightarrow> if length s = 2 then Inl NotModelled else Inl ValueError
         | DTuple xs \<Rightarrow> if length xs = 2 then Inl NotModelled else Inl ValueError
         | DName q \<Rightarrow> Inl NotModelled
         | DSub a sub \<Rightarrow> Inl NotModelled))"

text \<open>
  \<^verbatim>\<open>ForDirective.__call__\<close>, the scope of one item:
  \<^verbatim>\<open>if len(self.targets) == 1: item = [item]\<close>, then
  \<^verbatim>\<open>scope[name] = item[idx]\<close> for every target.
\<close>

fun bind_targets :: "pyval \<Rightarrow> nat \<Rightarrow> string list \<Rightarrow> frame \<Rightarrow> error + frame" where
  "bind_targets item idx [] scope = Inr scope"
| "bind_targets item idx (name # names) scope =
     (case py_getitem item idx of
        Inl e \<Rightarrow> Inl e
      | Inr v \<Rightarrow> bind_targets item (idx + 1) names (AList.update name v scope))"

definition for_scope :: "string list \<Rightarrow> pyval \<Rightarrow> error + frame" where
  "for_scope targets item =
     bind_targets (if length targets = 1 then PList [item] else item) 0 targets []"

text \<open>
  \<^verbatim>\<open>DefDirective._exec\<close>, the loop \<^verbatim>\<open>for name in self.args\<close> that fills \<^verbatim>\<open>scope\<close>:
  a positional argument while there is one (\<^verbatim>\<open>args.pop(0)\<close>), else
  \<^verbatim>\<open>kwargs.pop(name, self.defaults.get(name))\<close>.
\<close>

fun exec_scope :: "string list \<Rightarrow> frame \<Rightarrow> pyval list \<Rightarrow> frame \<Rightarrow> frame \<Rightarrow> frame" where
  "exec_scope [] defaults args kwargs scope = scope"
| "exec_scope (name # names) defaults args kwargs scope =
     (case args of
        a # args' \<Rightarrow> exec_scope names defaults args' kwargs (AList.update name a scope)
      | [] \<Rightarrow>
          exec_scope names defaults [] (AList.delete name kwargs)
            (AList.update name
               (case map_of kwargs name of
                  Some v \<Rightarrow> v
                | None \<Rightarrow> (case map_of defaults name of Some d \<Rightarrow> d | None \<Rightarrow> PNone))
               scope))"

text \<open>
  \<^verbatim>\<open>TemplateSyntaxError.__init__\<close>: when the message is a \<^verbatim>\<open>SyntaxError\<close> whose
  \<^verbatim>\<open>lineno\<close> is not \<^verbatim>\<open>None\<close>, the message becomes
  \<^verbatim>\<open>str(message).replace(' (line %d)' % message.lineno, '')\<close>; otherwise it stays the
  error, whose text is \<^verbatim>\<open>str(err)\<close>.  \<open>str_int\<close> is \<^verbatim>\<open>'%d' % n\<close>, \<open>remove_all old s\<close>
  is \<^verbatim>\<open>s.replace(old, '')\<close> for a non-empty \<^verbatim>\<open>old\<close>.
\<close>

function nat_digits :: "nat \<Rightarrow> string" where
  "nat_digits n =
     (if n < 10 then [char_of (48 + n)]
      else nat_digits (n div 10) @ [char_of (48 + n mod 10)])"
  by pat_completeness auto
termination
  by (relation "measure (\<lambda>n. n)") auto

definition str_int :: "int \<Rightarrow> string" where
  "str_int i = (if i < 0 then CHR ''-'' # nat_digits (nat (- i)) else nat_digits (nat i))"

function remove_all :: "string \<Rightarrow> string \<Rightarrow> string" where
  "remove_all old [] = []"
| "remove_all old (c # cs) =
     (if old \<noteq> [] \<and> take (length old) (c # cs) = old
      then remove_all old (drop (length old) (c # cs))
      else c # remove_all old cs)"
  by pat_completeness auto
termination
  by (relation "measure (\<lambda>(old, s). length s)") (auto simp: neq_Nil_conv)

definition template_message :: "string \<Rightarrow> int option \<Rightarrow> string" where
  "template_message text lineno =
     (case lineno of
        None \<Rightarrow> text
      | Some l \<Rightarrow> remove_all ('' (line '' @ str_int l @ '')'') text)"

text \<open>
  The handler of \<^verbatim>\<open>_transform\<close>:
  \<^verbatim>\<open>except SyntaxError, err: raise TemplateSyntaxError(err, self.filename, pos[0], pos[1] + (err.offset or 0))\<close>.
  Only a \<^verbatim>\<open>SyntaxError\<close> is caught.  \<open>p\<close> is the local variable \<^verbatim>\<open>pos\<close>, which has no
  value before the loop has unpacked its first event.
\<close>

definition reraise :: "env \<Rightarrow> pos option \<Rightarrow> error \<Rightarrow> error" where
  "reraise E p e =
     (case e of
        SyntaxError text lineno off \<Rightarrow>
          (case p of
             None \<Rightarrow> UnboundLocalError
           | Some (line, col) \<Rightarrow>
               TemplateSyntaxError (template_message text lineno) (filename E) line
                 (col + (case off of None \<Rightarrow> 0 | Some k \<Rightarrow> k)))
      | _ \<Rightarrow> e)"

section \<open>Generators\<close>

text \<open>
  The directives and \<^verbatim>\<open>_transform\<close> are Python generators: nothing of their body runs
  before the consumer asks for the next event, and what runs then reads and changes the
  context as it is at that moment.  A generator is therefore a value that says where its
  body stands, and \<open>pull\<close> runs it to its next \<^verbatim>\<open>yield\<close>:
  \<^item> \<open>GList evs\<close>: \<^verbatim>\<open>iter\<close> of a list, \<open>evs\<close> still to come;
  \<^item> \<open>GAttrs\<close>, \<open>GContent\<close>, \<open>GReplace\<close>, \<open>GStrip\<close>, \<open>GFor\<close>: the body of the
    \<^verbatim>\<open>__call__\<close> of that directive, not yet started, over a source generator;
  \<^item> \<open>GContent1\<close>: \<^verbatim>\<open>ContentDirective.__call__\<close> after the start tag;
    \<open>GContent2\<close>: after the \<^verbatim>\<open>EXPR\<close> event;
  \<^item> \<open>GStrip1 previous src\<close>: the loop of \<^verbatim>\<open>StripDirective.__call__\<close> that is one
    event behind its source;
  \<^item> \<open>GForLoop targets items body\<close>: \<^verbatim>\<open>ForDirective.__call__\<close> at the head of the
    loop over the items, \<open>body\<close> being \<^verbatim>\<open>list(stream)\<close>; \<open>GForBody\<close>: inside the
    loop, after \<^verbatim>\<open>ctxt.push\<close>, with the events of this pass still to come;
  \<^item> \<open>GExec\<close>: \<^verbatim>\<open>DefDirective._exec\<close> not yet started; \<open>GExecBody\<close>: after
    \<^verbatim>\<open>ctxt.push\<close>;
  \<^item> \<open>GFilter pending src\<close>: the filters over a source;
  \<^item> \<open>GTransform src p inner\<close>: the loop of \<^verbatim>\<open>_transform\<close> over the filtered
    stream \<open>src\<close>, \<open>p\<close> the variable \<^verbatim>\<open>pos\<close>, \<open>inner\<close> the recursive
    \<^verbatim>\<open>_transform\<close> whose events are being passed on.
  A loop \<^verbatim>\<open>for event in stream: yield event\<close> that ends a body behaves as its source, so
  the source itself is the state after \<^verbatim>\<open>AttrsDirective\<close> has yielded the start tag and
  after \<^verbatim>\<open>StripDirective\<close> has found that it does not strip.
  \<^verbatim>\<open>MatchDirective._handle_match\<close> is called by \<^verbatim>\<open>MatchFilter\<close> only, which is not
  part of \<^verbatim>\<open>template.py\<close>; it has no generator here.
\<close>

datatype gen =
    GList "event list"
  | GAttrs "Expression option" gen
  | GContent "Expression option" gen
  | GContent1 "Expression option" pos gen
  | GContent2 gen
  | GReplace "Expression option" gen
  | GStrip "Expression option" gen
  | GStrip1 event gen
  | GFor "string list" "Expression option" gen
  | GForLoop "string list" "pyval list" "event list"
  | GForBody "string list" "pyval list" "event list" "event list"
  | GExec nat "string list" frame "pyval list" frame
  | GExecBody "event list"
  | GFilter "event list" gen
  | GTransform gen "pos option" "gen option"

text \<open>
  Results: \<open>None\<close> when the step counter ran out, \<open>Some (Inl e)\<close> when \<open>e\<close> was raised,
  \<open>Some (Inr x)\<close> when the run returned \<open>x\<close>.
\<close>

type_synonym 'a res = "(error + 'a) option"

definition ok :: "'a \<Rightarrow> 'a res" where
  "ok x = Some (Inr x)"

definition raise :: "error \<Rightarrow> 'a res" where
  "raise e = Some (Inl e)"

definition bind_res :: "'a res \<Rightarrow> ('a \<Rightarrow> 'b res) \<Rightarrow> 'b res" where
  "bind_res m f = (case m of None \<Rightarrow> None | Some (Inl e) \<Rightarrow> Some (Inl e) | Some (Inr x) \<Rightarrow> f x)"

definition catch_res :: "'a res \<Rightarrow> (error \<Rightarrow> error) \<Rightarrow> 'a res" where
  "catch_res m h = (case m of Some (Inl e) \<Rightarrow> Some (Inl (h e)) | r \<Rightarrow> r)"

lemma bind_res_cong [fundef_cong]:
  "m = m' \<Longrightarrow> (\<And>x. m' = Some (Inr x) \<Longrightarrow> f x = f' x) \<Longrightarrow> bind_res m f = bind_res m' f'"
  by (auto simp: bind_res_def split: option.splits sum.splits)

text \<open>\<^verbatim>\<open>_transform(stream)\<close>: the filters are put over the stream, then the loop starts.\<close>

definition mk_transform :: "gen \<Rightarrow> gen" where
  "mk_transform src = GTransform (GFilter [] src) None None"

text \<open>
  \<open>pull E n g st\<close> asks generator \<open>g\<close> for its next event in store \<open>st\<close>: the result is
  the event (\<open>None\<close> when the generator is exhausted), the generator afterwards and the
  store afterwards.  A \<^verbatim>\<open>stream.next()\<close> on an exhausted source inside a body raises
  \<^verbatim>\<open>StopIteration\<close>, which ends that body too.  \<open>drain\<close> is \<^verbatim>\<open>list(stream)\<close>, or a
  consumer that takes every event.  \<open>apply_directives\<close> is the loop
  \<^verbatim>\<open>for directive in directives: substream = directive(iter(substream), ctxt)\<close>: the
  \<^verbatim>\<open>__call__\<close> of \<^verbatim>\<open>py:def\<close>, \<^verbatim>\<open>py:match\<close> and \<^verbatim>\<open>py:if\<close> is an ordinary function and
  runs at once, the others only make a generator.  \<open>n\<close> bounds the depth of the run.
\<close>

fun pull :: "env \<Rightarrow> nat \<Rightarrow> gen \<Rightarrow> state \<Rightarrow> (event option \<times> gen \<times> state) res"
and drain :: "env \<Rightarrow> nat \<Rightarrow> gen \<Rightarrow> state \<Rightarrow> (event list \<times> state) res"
and apply_directives :: "env \<Rightarrow> nat \<Rightarrow> directive list \<Rightarrow> gen \<Rightarrow> state \<Rightarrow> (gen \<times> state) res"
where
  "pull E 0 g st = None"
| "pull E (Suc n) (GList evs) st =
     (case evs of
        [] \<Rightarrow> ok (None, GList [], st)
      | ev # evs' \<Rightarrow> ok (Some ev, GList evs', st))"
| "pull E (Suc n) (GAttrs eo src) st =
     bind_res (pull E n src st) (\<lambda>(evo, src', st').
       case evo of
         None \<Rightarrow> ok (None, GList [], st')
       | Some ev \<Rightarrow>
           (case attrs_first E eo (ctxt st') ev of
              Inl e \<Rightarrow> raise e
            | Inr ev' \<Rightarrow> ok (Some ev', src', st')))"
| "pull E (Suc n) (GContent eo src) st =
     bind_res (pull E n src st) (\<lambda>(evo, src', st').
       case evo of
         None \<Rightarrow> ok (None, GList [], st')
       | Some (Event k d p) \<Rightarrow>
           if k = START then ok (Some (Event k d p), GContent1 eo p src', st')
           else ok (Some (Event EXPR (DExpr eo) p), GContent2 src', st'))"
| "pull E (Suc n) (GContent1 eo p src) st =
     ok (Some (Event EXPR (DExpr eo) p), GContent2 src, st)"
| "pull E (Suc n) (GContent2 src) st =
     bind_res (drain E n src st) (\<lambda>(evs, st').
       if evs = [] then ok (None, GList [], st')
       else ok (Some (last evs), GList [], st'))"
| "pull E (Suc n) (GReplace eo src) st =
     bind_res (pull E n src st) (\<lambda>(evo, src', st').
       case evo of
         None \<Rightarrow> ok (None, GList [], st')
       | Some (Event k d p) \<Rightarrow> ok (Some (Event EXPR (DExpr eo) p), GList [], st'))"
| "pull E (Suc n) (GStrip eo src) st =
     (case (case eo of None \<Rightarrow> Inr (PBool True) | Some e \<Rightarrow> evaluate E e (ctxt st) PNone) of
        Inl e \<Rightarrow> raise e
      | Inr strip \<Rightarrow>
          if truthy strip then
            bind_res (pull E n src st) (\<lambda>(evo1, src1, st1).
              case evo1 of
                None \<Rightarrow> ok (None, GList [], st1)
              | Some skipped \<Rightarrow>
                  bind_res (pull E n src1 st1) (\<lambda>(evo2, src2, st2).
                    case evo2 of
                      None \<Rightarrow> ok (None, GList [], st2)
                    | Some previous \<Rightarrow> pull E n (GStrip1 previous src2) st2))
          else pull E n src st)"
| "pull E (Suc n) (GStrip1 previous src) st =
     bind_res (pull E n src st) (\<lambda>(evo, src', st').
       case evo of
         None \<Rightarrow> ok (None, GList [], st')
       | Some ev \<Rightarrow> ok (Some previous, GStrip1 ev src', st'))"
| "pull E (Suc n) (GFor targets eo src) st =
     (case eval_expr E eo (ctxt st) (PList []) of
        Inl e \<Rightarrow> raise e
      | Inr iterable \<Rightarrow>
          if iterable \<noteq> PNone then
            bind_res (drain E n src st) (\<lambda>(body, st').
              case py_iter iterable of
                Inl e \<Rightarrow> raise e
              | Inr items \<Rightarrow> pull E n (GForLoop targets items body) st')
          else ok (None, GList [], st))"
| "pull E (Suc n) (GForLoop targets items body) st =
     (case items of
        [] \<Rightarrow> ok (None, GList [], st)
      | item # rest \<Rightarrow>
          (case for_scope targets item of
             Inl e \<Rightarrow> raise e
           | Inr scope \<Rightarrow>
               pull E n (GForBody targets rest body body) (st\<lparr>ctxt := push scope (ctxt st)\<rparr>)))"
| "pull E (Suc n) (GForBody targets rest body remaining) st =
     (case remaining of
        ev # evs \<Rightarrow> ok (Some ev, GForBody targets rest body evs, st)
      | [] \<Rightarrow>
          (case pop (ctxt st) of
             Inl e \<Rightarrow> raise e
           | Inr c \<Rightarrow> pull E n (GForLoop targets rest body) (st\<lparr>ctxt := c\<rparr>)))"
| "pull E (Suc n) (GExec did formals defaults args kwargs) st =
     pull E n (GExecBody (captured st did))
       (st\<lparr>ctxt := push (exec_scope formals defaults args kwargs []) (ctxt st)\<rparr>)"
| "pull E (Suc n) (GExecBody remaining) st =
     (case remaining of
        ev # evs \<Rightarrow> ok (Some ev, GExecBody evs, st)
      | [] \<Rightarrow>
          (case pop (ctxt st) of
             Inl e \<Rightarrow> raise e
           | Inr c \<Rightarrow> ok (None, GList [], st\<lparr>ctxt := c\<rparr>)))"
| "pull E (Suc n) (GFilter pending src) st =
     (case pending of
        ev # evs \<Rightarrow> ok (Some ev, GFilter evs src, st)
      | [] \<Rightarrow>
          bind_res (pull E n src st) (\<lambda>(evo, src', st').
            case evo of
              None \<Rightarrow> ok (None, GList [], st')
            | Some ev \<Rightarrow>
                (case filter_event E (ctxt st') ev of
                   Inl e \<Rightarrow> raise e
                 | Inr evs \<Rightarrow> pull E n (GFilter evs src') st')))"
| "pull E (Suc n) (GTransform src p inner) st =
     (case inner of
        Some g \<Rightarrow>
          bind_res (catch_res (pull E n g st) (reraise E p)) (\<lambda>(evo, g', st').
            case evo of
              Some ev \<Rightarrow> ok (Some ev, GTransform src p (Some g'), st')
            | None \<Rightarrow> pull E n (GTransform src p None) st')
      | None \<Rightarrow>
          bind_res (catch_res (pull E n src st) (reraise E p)) (\<lambda>(evo, src', st').
            case evo of
              None \<Rightarrow> ok (None, GList [], st')
            | Some (Event k d p') \<Rightarrow>
                if k = SUB then
                  (case d of
                     DSub a substream \<Rightarrow>
                       bind_res
                         (catch_res
                            (apply_directives E n (rev (dirlists st' a)) (GList substream)
                               (st'\<lparr>dirlists := (dirlists st')(a := rev (dirlists st' a))\<rparr>))
                            (reraise E (Some p')))
                         (\<lambda>(g, st''). pull E n (GTransform src' (Some p') (Some (mk_transform g))) st'')
                   | _ \<Rightarrow> raise NotModelled)
                else ok (Some (Event k d p'), GTransform src' (Some p') None, st')))"
| "drain E 0 g st = None"
| "drain E (Suc n) g st =
     bind_res (pull E n g st) (\<lambda>(evo, g', st').
       case evo of
         None \<Rightarrow> ok ([], st')
       | Some ev \<Rightarrow> bind_res (drain E n g' st') (\<lambda>(evs, st''). ok (ev # evs, st'')))"
| "apply_directives E 0 ds g st = None"
| "apply_directives E (Suc n) [] g st = ok (g, st)"
| "apply_directives E (Suc n) (d # ds) g st =
     (case d of
        DefDirective did name formals defaults \<Rightarrow>
          bind_res (drain E n g st) (\<lambda>(evs, st').
            case setitem (ctxt st') name (PCallable did) of
              Inl e \<Rightarrow> raise e
            | Inr c \<Rightarrow>
                apply_directives E n ds (GList [])
                  (st'\<lparr>captured := (captured st')(did := evs), ctxt := c\<rparr>))
      | MatchDirective did path \<Rightarrow>
          bind_res (drain E n g st) (\<lambda>(evs, st').
            apply_directives E n ds (GList []) (st'\<lparr>captured := (captured st')(did := evs)\<rparr>))
      | ForDirective targets eo \<Rightarrow> apply_directives E n ds (GFor targets eo g) st
      | IfDirective eo \<Rightarrow>
          (case eval_expr E eo (ctxt st) PNone of
             Inl e \<Rightarrow> raise e
           | Inr v \<Rightarrow> apply_directives E n ds (if truthy v then g else GList []) st)
      | ReplaceDirective eo \<Rightarrow> apply_directives E n ds (GReplace eo g) st
      | ContentDirective eo \<Rightarrow> apply_directives E n ds (GContent eo g) st
      | AttrsDirective eo \<Rightarrow> apply_directives E n ds (GAttrs eo g) st
      | StripDirective eo \<Rightarrow> apply_directives E n ds (GStrip eo g) st)"


text \<open>
  \<^verbatim>\<open>Template.generate\<close>, consumed to the end: the events of \<^verbatim>\<open>_transform(self.stream)\<close>
  go through the post-filters.  The post-filters (\<^verbatim>\<open>WhitespaceFilter\<close>) do not touch the
  context; \<open>post\<close> is their effect on the whole list of events.
\<close>

definition generate ::
  "env \<Rightarrow> (event list \<Rightarrow> event list) \<Rightarrow> nat \<Rightarrow> event list \<Rightarrow> state \<Rightarrow> (event list \<times> state) res" where
  "generate E post n stream st =
     bind_res (drain E n (mk_transform (GList stream)) st) (\<lambda>(evs, st'). ok (post evs, st'))"

text \<open>
  A consumer of a generator that notes, with every event it receives, the context as it
  is at that moment: \<^verbatim>\<open>for event in gen: seen.append((event, ctxt))\<close> with the value of
  \<^verbatim>\<open>ctxt\<close> copied.  It shows what a directive has done to the context by the time it
  hands out an event.
\<close>

fun drain_ctxts :: "env \<Rightarrow> nat \<Rightarrow> gen \<Rightarrow> state \<Rightarrow> ((event \<times> Context) list \<times> state) res" where
  "drain_ctxts E 0 g st = None"
| "drain_ctxts E (Suc n) g st =
     bind_res (pull E n g st) (\<lambda>(evo, g', st').
       case evo of
         None \<Rightarrow> ok ([], st')
       | Some ev \<Rightarrow>
           bind_res (drain_ctxts E n g' st') (\<lambda>(evs, st''). ok ((ev, ctxt st') # evs, st'')))"

section \<open>Parsing\<close>

text \<open>
  \<^verbatim>\<open>Template.NAMESPACE\<close>, the table \<^verbatim>\<open>Template.directives\<close> and what is derived from
  it: \<^verbatim>\<open>_dir_by_name = dict(directives)\<close> and
  \<^verbatim>\<open>_dir_order = [directive[1] for directive in directives]\<close>.
\<close>

definition NAMESPACE :: string where
  "NAMESPACE = ''http://purl.org/kid/ns#''"

datatype directive_class = DefCls | MatchCls | ForCls | IfCls | ReplaceCls | ContentCls | AttrsCls | StripCls

definition directives :: "(string \<times> directive_class) list" where
  "directives = [(''def'', DefCls), (''match'', MatchCls), (''for'', ForCls), (''if'', IfCls),
                 (''replace'', ReplaceCls), (''content'', ContentCls), (''attrs'', AttrsCls),
                 (''strip'', StripCls)]"

definition dir_by_name :: "string \<Rightarrow> directive_class option" where
  "dir_by_name = map_of directives"

definition dir_order :: "directive_class list" where
  "dir_order = map snd directives"

fun class_of :: "directive \<Rightarrow> directive_class" where
  "class_of (DefDirective did name formals defaults) = DefCls"
| "class_of (MatchDirective did path) = MatchCls"
| "class_of (ForDirective targets eo) = ForCls"
| "class_of (IfDirective eo) = IfCls"
| "class_of (ReplaceDirective eo) = ReplaceCls"
| "class_of (ContentDirective eo) = ContentCls"
| "class_of (AttrsDirective eo) = AttrsCls"
| "class_of (StripDirective eo) = StripCls"

fun list_index :: "'a list \<Rightarrow> 'a \<Rightarrow> nat" where
  "list_index [] x = 0"
| "list_index (y # ys) x = (if y = x then 0 else Suc (list_index ys x))"

text \<open>
  \<^verbatim>\<open>directives.sort(lambda a, b: cmp(self._dir_order.index(a.__class__), self._dir_order.index(b.__class__)))\<close>:
  a stable sort by the place of the class in \<^verbatim>\<open>_dir_order\<close>.
\<close>

definition sort_directives :: "directive list \<Rightarrow> directive list" where
  "sort_directives ds = sort_key (\<lambda>d. list_index dir_order (class_of d)) ds"

definition Directive_expr :: "string \<Rightarrow> Expression option" where
  "Directive_expr v = (if v = [] then None else Some v)"

text \<open>
  The constructors.  \<^verbatim>\<open>Directive.__init__\<close> sets
  \<^verbatim>\<open>self.expr = value and Expression(value) or None\<close>.  \<^verbatim>\<open>ForDirective.__init__\<close> splits
  the value at the first \<^verbatim>\<open>' in '\<close> (\<open>split_once\<close>; the tuple assignment fails when
  there is none) and the targets at the commas (\<open>split_char\<close>), and takes
  \<^verbatim>\<open>str(name.strip())\<close> of each, which fails on a character outside ASCII.
  \<^verbatim>\<open>DefDirective.__init__\<close> reads name, arguments and defaults off the syntax tree that
  \<^verbatim>\<open>compiler.parse\<close> of the Python library returns: \<open>parse_def\<close> is that step.
  \<^verbatim>\<open>MatchDirective.__init__\<close> also appends a \<^verbatim>\<open>MatchFilter\<close> to \<^verbatim>\<open>template.filters\<close>.
\<close>

fun split_once :: "string \<Rightarrow> string \<Rightarrow> string \<Rightarrow> (string \<times> string) option" where
  "split_once sep acc [] = None"
| "split_once sep acc (c # cs) =
     (if take (length sep) (c # cs) = sep then Some (acc, drop (length sep) (c # cs))
      else split_once sep (acc @ [c]) cs)"

fun split_char :: "char \<Rightarrow> string \<Rightarrow> string \<Rightarrow> string list" where
  "split_char sep acc [] = [acc]"
| "split_char sep acc (c # cs) =
     (if c = sep then acc # split_char sep [] cs else split_char sep (acc @ [c]) cs)"

definition is_ascii :: "string \<Rightarrow> bool" where
  "is_ascii s = list_all (\<lambda>c. c < CHR 0x80) s"

record parse_env =
  parse_def :: "string \<Rightarrow> error + string \<times> string list \<times> frame"
  template_filename :: string

definition mk_directive :: "parse_env \<Rightarrow> directive_class \<Rightarrow> string \<Rightarrow> nat \<Rightarrow> error + directive" where
  "mk_directive P cls v did =
     (case cls of
        DefCls \<Rightarrow>
          (case parse_def P v of
             Inl e \<Rightarrow> Inl e
           | Inr (name, formals, defaults) \<Rightarrow> Inr (DefDirective did name formals defaults))
      | MatchCls \<Rightarrow> Inr (MatchDirective did v)
      | ForCls \<Rightarrow>
          (case split_once '' in '' [] v of
             None \<Rightarrow> Inl ValueError
           | Some (targets, expr_source) \<Rightarrow>
               if list_all is_ascii (map py_strip (split_char CHR '','' [] targets))
               then Inr (ForDirective (map py_strip (split_char CHR '','' [] targets))
                           (Directive_expr expr_source))
               else Inl UnicodeEncodeError)
      | IfCls \<Rightarrow> Inr (IfDirective (Directive_expr v))
      | ReplaceCls \<Rightarrow> Inr (ReplaceDirective (Directive_expr v))
      | ContentCls \<Rightarrow> Inr (ContentDirective (Directive_expr v))
      | AttrsCls \<Rightarrow> Inr (AttrsDirective (Directive_expr v))
      | StripCls \<Rightarrow> Inr (StripDirective (Directive_expr v)))"

text \<open>
  \<^verbatim>\<open>Template.parse\<close>.  The local variables of the loop over the events of the
  \<^verbatim>\<open>XMLParser\<close>: \<open>out\<close> is \<^verbatim>\<open>stream\<close>; \<open>dirmap\<close> maps \<^verbatim>\<open>(depth, tag)\<close> to the address of
  the sorted directive list and to \<^verbatim>\<open>len(stream)\<close>; \<open>lists\<close> holds the directive lists
  made so far, \<open>next_list\<close> and \<open>next_directive\<close> the next free address and directive
  number, \<open>filters\<close> the \<^verbatim>\<open>MatchFilter\<close>s appended to \<^verbatim>\<open>self.filters\<close> (path and
  directive).  The attribute values that the parser delivers are strings.
\<close>

record parse_state =
  out :: "event list"
  dirmap :: "((int \<times> qname) \<times> (nat \<times> nat)) list"
  ns_prefix :: "(string \<times> string) list"
  depth :: int
  lists :: "nat \<Rightarrow> directive list"
  next_list :: nat
  next_directive :: nat
  filters :: "(string \<times> nat) list"

definition parse_init :: parse_state where
  "parse_init = \<lparr>out = [], dirmap = [], ns_prefix = [], depth = 0, lists = (\<lambda>a. []),
                 next_list = 0, next_directive = 0, filters = []\<rparr>"

text \<open>The loop over the attributes of a start tag.\<close>

fun parse_attrib ::
  "parse_env \<Rightarrow> pos \<Rightarrow> attrs \<Rightarrow> directive list \<Rightarrow> attrs \<Rightarrow> nat \<Rightarrow> (string \<times> nat) list \<Rightarrow>
     (directive list \<times> attrs \<times> nat \<times> (string \<times> nat) list) res"
where
  "parse_attrib P p [] ds new_attrib did flt = ok (ds, new_attrib, did, flt)"
| "parse_attrib P p ((name, v) # rest) ds new_attrib did flt =
     (case v of
        AEvents evs \<Rightarrow> raise NotModelled
      | AText s \<Rightarrow>
          if namespace name = Some NAMESPACE then
            (case dir_by_name (localname name) of
               None \<Rightarrow> raise (BadDirectiveError (localname name) (template_filename P) (fst p))
             | Some cls \<Rightarrow>
                 (case mk_directive P cls s did of
                    Inl e \<Rightarrow> raise e
                  | Inr d \<Rightarrow>
                      parse_attrib P p rest (ds @ [d]) new_attrib (Suc did)
                        (if cls = MatchCls then flt @ [(s, did)] else flt)))
          else
            bind_res (interpolate s p) (\<lambda>evs.
              parse_attrib P p rest ds (new_attrib @ [(name, AEvents evs)]) did flt))"

definition parse_event :: "parse_env \<Rightarrow> parse_state \<Rightarrow> event \<Rightarrow> parse_state res" where
  "parse_event P s ev =
     (case ev of Event k d p \<Rightarrow>
        if k = START_NS then
          (case d of
             DTuple [prefix, uri] \<Rightarrow>
               if uri = NAMESPACE then ok (s\<lparr>ns_prefix := AList.update prefix uri (ns_prefix s)\<rparr>)
               else ok (s\<lparr>out := out s @ [ev]\<rparr>)
           | _ \<Rightarrow> raise NotModelled)
        else if k = END_NS then
          (case d of
             DText prefix \<Rightarrow>
               if map_of (ns_prefix s) prefix \<noteq> None
               then ok (s\<lparr>ns_prefix := AList.delete prefix (ns_prefix s)\<rparr>)
               else ok (s\<lparr>out := out s @ [ev]\<rparr>)
           | _ \<Rightarrow> raise NotModelled)
        else if k = START then
          (case d of
             DStart tag attrib \<Rightarrow>
               bind_res (parse_attrib P p attrib [] [] (next_directive s) (filters s))
                 (\<lambda>(ds, new_attrib, did, flt).
                    let s1 = s\<lparr>next_directive := did, filters := flt\<rparr>;
                        s2 = (if ds \<noteq> [] then
                                s1\<lparr>lists := (lists s1)(next_list s1 := sort_directives ds),
                                   dirmap := AList.update (depth s1, tag) (next_list s1, length (out s1))
                                               (dirmap s1),
                                   next_list := Suc (next_list s1)\<rparr>
                              else s1)
                    in ok (s2\<lparr>out := out s2 @ [Event k (DStart tag new_attrib) p],
                              depth := depth s2 + 1\<rparr>))
           | _ \<Rightarrow> raise NotModelled)
        else if k = END then
          (case d of
             DName tag \<Rightarrow>
               let s1 = s\<lparr>depth := depth s - 1, out := out s @ [ev]\<rparr> in
               (case map_of (dirmap s1) (depth s1, tag) of
                  Some (a, start_offset) \<Rightarrow>
                    ok (s1\<lparr>dirmap := AList.delete (depth s1, tag) (dirmap s1),
                           out := take start_offset (out s1) @
                                  [Event SUB (DSub a (drop start_offset (out s1))) p]\<rparr>)
                | None \<Rightarrow> ok s1)
           | _ \<Rightarrow> raise NotModelled)
        else if k = TEXT then
          (case d of
             DText text \<Rightarrow> bind_res (interpolate text p) (\<lambda>evs. ok (s\<lparr>out := out s @ evs\<rparr>))
           | _ \<Rightarrow> raise NotModelled)
        else ok (s\<lparr>out := out s @ [ev]\<rparr>))"

fun parse_events :: "parse_env \<Rightarrow> parse_state \<Rightarrow> event list \<Rightarrow> parse_state res" where
  "parse_events P s [] = ok s"
| "parse_events P s (ev # evs) = bind_res (parse_event P s ev) (\<lambda>s'. parse_events P s' evs)"

definition parse :: "parse_env \<Rightarrow> event list \<Rightarrow> parse_state res" where
  "parse P source = parse_events P parse_init source"

section \<open>Templates without directives\<close>

text \<open>
  What the statements about directive-free input speak of: the kind of an event; an
  event of the markup parser that carries no attribute in the directive namespace; the
  stream that \<^verbatim>\<open>parse\<close> leaves in \<^verbatim>\<open>self.stream\<close>; and the events that the filters
  make of a whole list of events in one context, in order.
\<close>

fun kind_of :: "event \<Rightarrow> kind" where
  "kind_of (Event k d p) = k"

definition not_sub :: "event \<Rightarrow> bool" where
  "not_sub ev = (kind_of ev \<noteq> SUB)"

lemma not_sub_Event [simp]: "not_sub (Event k d p) = (k \<noteq> SUB)"
  unfolding not_sub_def by simp

fun no_directive_attrs :: "event \<Rightarrow> bool" where
  "no_directive_attrs (Event k d p) =
     (case d of
        DStart tag attrib \<Rightarrow> list_all (\<lambda>(name, v). namespace name \<noteq> Some NAMESPACE) attrib
      | _ \<Rightarrow> True)"

text \<open>An event of the markup parser that holds no expression: it is no \<^verbatim>\<open>EXPR\<close> event
  and, when it is text, the text has no dollar sign.  \<open>not_expr\<close>: the event is no
  \<^verbatim>\<open>EXPR\<close> event.\<close>

fun no_expression :: "event \<Rightarrow> bool" where
  "no_expression (Event k d p) =
     (k \<noteq> EXPR \<and> (case d of DText tx \<Rightarrow> k = TEXT \<longrightarrow> CHR ''$'' \<notin> set tx | _ \<Rightarrow> True))"

definition not_expr :: "event \<Rightarrow> bool" where
  "not_expr ev = (kind_of ev \<noteq> EXPR)"

definition parse_stream :: "parse_env \<Rightarrow> event list \<Rightarrow> (error + event list) option" where
  "parse_stream P source = map_option (map_sum id out) (parse P source)"

fun filter_all :: "env \<Rightarrow> Context \<Rightarrow> event list \<Rightarrow> error + event list" where
  "filter_all E c [] = Inr []"
| "filter_all E c (ev # evs) =
     (case filter_event E c ev of
        Inl e \<Rightarrow> Inl e
      | Inr first \<Rightarrow>
          (case filter_all E c evs of Inl e \<Rightarrow> Inl e | Inr rest \<Rightarrow> Inr (first @ rest)))"

section \<open>Sample collaborators\<close>

text \<open>
  Modelled from the spec: the expression evaluator (\<^verbatim>\<open>markup.eval\<close>) is not among the
  sources; its contract is \<^verbatim>\<open>evaluate(context, default=None) -> value\<close>, raising a
  syntax error that carries an offset and is distinct from runtime errors.
  \<open>sample_evaluate\<close> is the evaluator of the closed examples and covers their
  expressions only: a bare name is looked up in the context (the default stands in
  when the lookup gives \<^verbatim>\<open>None\<close>), \<^verbatim>\<open>1/0\<close> raises \<^verbatim>\<open>ZeroDivisionError\<close>, \<^verbatim>\<open>1 +\<close> is
  a syntax error in line 1 at offset 3, without a filename.
\<close>

definition sample_evaluate :: "Expression \<Rightarrow> Context \<Rightarrow> pyval \<Rightarrow> error + pyval" where
  "sample_evaluate src c dflt =
     (if src = ''1/0'' then Inl ZeroDivisionError
      else if src = ''1 +'' then Inl (SyntaxError ''unexpected EOF while parsing (line 1)'' (Some 1) (Some 3))
      else (case get c src of PNone \<Rightarrow> Inr dflt | v \<Rightarrow> Inr v))"

text \<open>The builtin \<^verbatim>\<open>unicode()\<close> on strings, the only values that the closed
  examples convert.\<close>

definition sample_unicode :: "pyval \<Rightarrow> string" where
  "sample_unicode v = (case v of PStr s \<Rightarrow> s | _ \<Rightarrow> [])"

text \<open>
  Modelled from the spec: \<^verbatim>\<open>EvalFilter\<close> of \<^verbatim>\<open>markup.filters\<close> is not among the sources.
  The spec describes it as ``an evaluator that turns EXPR events into TEXT/other events
  by calling the compiled expression against context and re-serializing the result''.
  Here an \<^verbatim>\<open>EXPR\<close> event becomes the \<^verbatim>\<open>TEXT\<close> event of the value's text and every other
  event passes; what the filter makes of a value \<^verbatim>\<open>None\<close> is not said.
\<close>

definition EvalFilter ::
  "(Expression \<Rightarrow> Context \<Rightarrow> pyval \<Rightarrow> error + pyval) \<Rightarrow> (pyval \<Rightarrow> string) \<Rightarrow>
     Context \<Rightarrow> event \<Rightarrow> error + event list" where
  "EvalFilter ev uni c e =
     (case e of Event k d p \<Rightarrow>
        if k = EXPR then
          (case d of
             DExpr (Some src) \<Rightarrow>
               (case ev src c PNone of
                  Inl err \<Rightarrow> Inl err
                | Inr v \<Rightarrow> if v = PNone then Inl NotModelled else Inr [Event TEXT (DText (uni v)) p])
           | DExpr None \<Rightarrow> Inl AttributeError
           | _ \<Rightarrow> Inl NotModelled)
        else Inr [e])"

text \<open>
  Modelled from the spec: \<^verbatim>\<open>WhitespaceFilter\<close> of \<^verbatim>\<open>markup.filters\<close> is not among the
  sources.  The spec: it ``consumes the final output stream and collapses redundant
  whitespace runs; purely cosmetic''.  Here every run of whitespace in a text event is
  cut down to its first character; other events pass.
\<close>

fun collapse_space :: "string \<Rightarrow> string" where
  "collapse_space (c # d # cs) =
     (if is_space c \<and> is_space d then collapse_space (c # cs) else c # collapse_space (d # cs))"
| "collapse_space cs = cs"

fun WhitespaceFilter :: "event list \<Rightarrow> event list" where
  "WhitespaceFilter [] = []"
| "WhitespaceFilter (Event k d p # evs) =
     (case d of
        DText s \<Rightarrow> (if k = TEXT then Event k (DText (collapse_space s)) p else Event k d p)
      | _ \<Rightarrow> Event k d p) # WhitespaceFilter evs"

definition sample_env :: env where
  "sample_env =
     \<lparr>evaluate = sample_evaluate, unicode_of = sample_unicode,
      filter_event = EvalFilter sample_evaluate sample_unicode, filename = ''<string>''\<rparr>"

text \<open>
  Modelled from the spec: ``lookup misses (undefined variable) are not errors, they
  resolve to an undefined sentinel''.  \<open>lookup_env\<close> has an evaluator that gives the value
  of a name in the context, and \<^verbatim>\<open>None\<close> for a name that no frame binds, whatever the
  default.
\<close>

definition lookup_env :: env where
  "lookup_env = sample_env\<lparr>evaluate := (\<lambda>src c dflt. Inr (get c src))\<rparr>"

text \<open>A stand-in for \<^verbatim>\<open>compiler.parse\<close> on a \<^verbatim>\<open>py:def\<close> value that is a bare name.\<close>

definition sample_parse_def :: "string \<Rightarrow> error + string \<times> string list \<times> frame" where
  "sample_parse_def v = Inr (v, [], [])"

definition sample_parse_env :: parse_env where
  "sample_parse_env = \<lparr>parse_def = sample_parse_def, template_filename = ''<string>''\<rparr>"

text \<open>Names in the directive namespace and names without namespace.\<close>

definition py :: "string \<Rightarrow> qname" where
  "py l = QName (Some NAMESPACE) l"

definition html :: "string \<Rightarrow> qname" where
  "html l = QName None l"

text \<open>Stores and streams of the examples.\<close>

definition echo_state :: state where
  "echo_state =
     \<lparr>ctxt = Context_init [(''bar'', PStr ''Bye'')], dirlists = (\<lambda>a. []),
      captured = (\<lambda>d. [Event TEXT (DText ''hi'') (3, 4)])\<rparr>"

definition li_state :: state where
  "li_state =
     \<lparr>ctxt = Context_init [(''foo'', PDict [(''class'', PStr '' collapse ''), (''id'', PNone)])],
      dirlists = (\<lambda>a. []), captured = (\<lambda>d. [])\<rparr>"

definition li_events :: "event list" where
  "li_events =
     [Event START (DStart (html ''li'') [(html ''id'', AText ''x'')]) (2, 2),
      Event TEXT (DText ''Bar'') (2, 21),
      Event END (DName (html ''li'')) (2, 24)]"

definition loop_state :: state where
  "loop_state =
     \<lparr>ctxt = Context_init [(''items'', PList [PInt 1, PInt 2, PInt 3])],
      dirlists = (\<lambda>a. []), captured = (\<lambda>d. [])\<rparr>"

definition loop_body :: "event list" where
  "loop_body =
     [Event START (DStart (html ''li'') []) (2, 2),
      Event EXPR (DExpr (Some ''item'')) (2, 29),
      Event END (DName (html ''li'')) (2, 36)]"

definition attrs_strip_doc :: "event list" where
  "attrs_strip_doc =
     [Event START_NS (DTuple [''py'', NAMESPACE]) (1, 0),
      Event START (DStart (html ''div'') [(py ''strip'', AText ''''), (py ''attrs'', AText ''foo'')]) (1, 0),
      Event START (DStart (html ''b'') []) (1, 30),
      Event TEXT (DText ''x'') (1, 33),
      Event END (DName (html ''b'')) (1, 34),
      Event END (DName (html ''div'')) (1, 38),
      Event END_NS (DText ''py'') (1, 38)]"

definition foo_ctxt :: Context where
  "foo_ctxt = Context_init [(''foo'', PDict [(''class'', PStr ''collapse'')])]"

definition template_state :: "parse_state \<Rightarrow> Context \<Rightarrow> state" where
  "template_state s c = \<lparr>ctxt = c, dirlists = lists s, captured = (\<lambda>d. [])\<rparr>"

definition def_strip_doc :: "event list" where
  "def_strip_doc =
     [Event START_NS (DTuple [''py'', NAMESPACE]) (1, 0),
      Event START (DStart (html ''div'') [(py ''def'', AText ''echo''), (py ''strip'', AText '''')]) (1, 0),
      Event START (DStart (html ''b'') []) (1, 30),
      Event TEXT (DText ''x'') (1, 33),
      Event END (DName (html ''b'')) (1, 34),
      Event END (DName (html ''div'')) (1, 38),
      Event END_NS (DText ''py'') (1, 38)]"







text \<open>The document \<^verbatim>\<open><p class="a">Hello  world</p>\<close> and its parsed stream.\<close>

definition plain_doc :: "event list" where
  "plain_doc =
     [Event START (DStart (html ''p'') [(html ''class'', AText ''a'')]) (1, 0),
      Event TEXT (DText ''Hello  world'') (1, 13),
      Event END (DName (html ''p'')) (1, 25)]"

definition plain_stream :: "event list" where
  "plain_stream =
     [Event START (DStart (html ''p'')
        [(html ''class'', AEvents [Event TEXT (DText ''a'') (1, 0)])]) (1, 0),
      Event TEXT (DText ''Hello  world'') (1, 13),
      Event END (DName (html ''p'')) (1, 25)]"

definition recapture_sub :: "event list" where
  "recapture_sub =
     [Event START (DStart (html ''p'') []) (2, 2),
      Event END (DName (html ''p'')) (4, 2)]"

definition def_state :: state where
  "def_state =
     \<lparr>ctxt = Context_init [], dirlists = (\<lambda>a. [DefDirective 0 ''echo'' [] []]),
      captured = (\<lambda>d. [Event TEXT (DText ''old'') (1, 0)])\<rparr>"

definition expr_doc :: "event list" where
  "expr_doc =
     [Event START (DStart (html ''p'') [(html ''class'', AText ''a'')]) (1, 0),
      Event TEXT (DText ''$x'') (1, 13),
      Event END (DName (html ''p'')) (1, 15)]"

definition expr_stream :: "event list" where
  "expr_stream =
     [Event START (DStart (html ''p'') [(html ''class'', AEvents [Event TEXT (DText ''a'') (1, 0)])]) (1, 0),
      Event EXPR (DExpr (Some ''x'')) (1, 13),
      Event END (DName (html ''p'')) (1, 15)]"

definition expr_output :: "event list" where
  "expr_output =
     [Event START (DStart (html ''p'') [(html ''class'', AEvents [Event TEXT (DText ''a'') (1, 0)])]) (1, 0),
      Event TEXT (DText ''hi'') (1, 13),
      Event END (DName (html ''p'')) (1, 15)]"

definition expr_state :: state where
  "expr_state =
     \<lparr>ctxt = Context_init [(''x'', PStr ''hi'')], dirlists = (\<lambda>a. []), captured = (\<lambda>d. [])\<rparr>"

section \<open>Step counter\<close>

text \<open>More steps never change a result: a run that returned with \<open>n\<close> steps returns the
  same with any larger number.\<close>

lemma bind_res_simps [simp]:
  "bind_res None f = None"
  "bind_res (Some (Inl e)) f = Some (Inl e)"
  "bind_res (Some (Inr x)) f = f x"
  by (simp_all add: bind_res_def)

lemma catch_res_simps [simp]:
  "catch_res None h = None"
  "catch_res (Some (Inl e)) h = Some (Inl (h e))"
  "catch_res (Some (Inr x)) h = Some (Inr x)"
  by (simp_all add: catch_res_def)

definition le_res :: "'a res \<Rightarrow> 'a res \<Rightarrow> bool" where
  "le_res a b = (a = None \<or> a = b)"

lemma le_res_refl [simp]: "le_res a a" by (simp add: le_res_def)
lemma le_res_None [simp]: "le_res None a" by (simp add: le_res_def)

lemma le_res_bind:
  "le_res m m' \<Longrightarrow> (\<And>x. m' = Some (Inr x) \<Longrightarrow> le_res (f x) (f' x)) \<Longrightarrow> le_res (bind_res m f) (bind_res m' f')"
  by (auto simp: le_res_def bind_res_def split: option.splits sum.splits)

lemma le_res_catch:
  "le_res m m' \<Longrightarrow> le_res (catch_res m h) (catch_res m' h)"
  by (auto simp: le_res_def catch_res_def split: option.splits sum.splits)

lemma fuel_step_aux:
  assumes P: "\<And>g st. le_res (pull E n g st) (pull E m g st)"
    and D: "\<And>g st. le_res (drain E n g st) (drain E m g st)"
    and A: "\<And>ds g st. le_res (apply_directives E n ds g st) (apply_directives E m ds g st)"
  shows "le_res (pull E (Suc n) g st) (pull E (Suc m) g st)"
    and "le_res (drain E (Suc n) g st) (drain E (Suc m) g st)"
    and "le_res (apply_directives E (Suc n) ds g st) (apply_directives E (Suc m) ds g st)"
proof -
  note intros = le_res_bind le_res_catch P D A
  show "le_res (pull E (Suc n) g st) (pull E (Suc m) g st)"
  proof (cases g)
    case (GTransform src p inner)
    show ?thesis
      unfolding GTransform pull.simps
      by (auto intro!: intros split: option.split event.split data.split prod.split sum.split)
  qed (simp_all only: pull.simps, (auto intro!: intros split: option.split event.split list.split sum.split prod.split)+)
  show "le_res (drain E (Suc n) g st) (drain E (Suc m) g st)"
    unfolding drain.simps
    by (auto intro!: intros split: option.split prod.split)
  show "le_res (apply_directives E (Suc n) ds g st) (apply_directives E (Suc m) ds g st)"
  proof (cases ds)
    case Nil
    then show ?thesis by simp
  next
    case (Cons d ds')
    show ?thesis
      unfolding Cons apply_directives.simps
      by (cases d) (auto intro!: intros split: option.split prod.split sum.split)
  qed
qed

lemma fuel_step:
  "(\<forall>g st. le_res (pull E n g st) (pull E (Suc n) g st)) \<and>
   (\<forall>g st. le_res (drain E n g st) (drain E (Suc n) g st)) \<and>
   (\<forall>ds g st. le_res (apply_directives E n ds g st) (apply_directives E (Suc n) ds g st))"
proof (induction n)
  case 0
  show ?case by simp
next
  case (Suc n)
  then show ?case
    using fuel_step_aux [of E n "Suc n"] by blast
qed


lemma le_res_trans: "le_res a b \<Longrightarrow> le_res b c \<Longrightarrow> le_res a c"
  by (auto simp: le_res_def)

lemma fuel_mono_aux:
  "le_res (pull E n g st) (pull E (n + k) g st) \<and>
   le_res (drain E n g st) (drain E (n + k) g st) \<and>
   le_res (apply_directives E n ds g st) (apply_directives E (n + k) ds g st)"
proof (induction k)
  case 0
  show ?case by simp
next
  case (Suc k)
  from fuel_step [of E "n + k"] have
    "le_res (pull E (n + k) g st) (pull E (Suc (n + k)) g st)"
    "le_res (drain E (n + k) g st) (drain E (Suc (n + k)) g st)"
    "le_res (apply_directives E (n + k) ds g st) (apply_directives E (Suc (n + k)) ds g st)"
    by blast+
  with Suc show ?case
    unfolding add_Suc_right by (blast intro: le_res_trans)
qed

lemma pull_mono: "pull E n g st = Some r \<Longrightarrow> n \<le> m \<Longrightarrow> pull E m g st = Some r"
  using fuel_mono_aux [of E n g st "m - n"] by (auto simp: le_res_def)

lemma drain_mono: "drain E n g st = Some r \<Longrightarrow> n \<le> m \<Longrightarrow> drain E m g st = Some r"
  using fuel_mono_aux [of E n g st "m - n"] by (auto simp: le_res_def)


lemma drain_ctxts_step_aux:
  assumes P: "\<And>g st. le_res (pull E n g st) (pull E m g st)"
    and D: "\<And>g st. le_res (drain_ctxts E n g st) (drain_ctxts E m g st)"
  shows "le_res (drain_ctxts E (Suc n) g st) (drain_ctxts E (Suc m) g st)"
  unfolding drain_ctxts.simps
  by (auto intro!: le_res_bind P D split: option.split prod.split)

lemma drain_ctxts_step:
  "le_res (drain_ctxts E n g st) (drain_ctxts E (Suc n) g st)"
proof (induction n arbitrary: g st)
  case 0
  show ?case by simp
next
  case (Suc n)
  have "le_res (pull E n g st) (pull E (Suc n) g st)" for g st
    using fuel_step [of E n] by blast
  then show ?case
    using Suc by (rule drain_ctxts_step_aux)
qed

lemma drain_ctxts_mono:
  "drain_ctxts E n g st = Some r \<Longrightarrow> n \<le> m \<Longrightarrow> drain_ctxts E m g st = Some r"
proof (induction m)
  case 0
  then show ?case by simp
next
  case (Suc m)
  show ?case
  proof (cases "n = Suc m")
    case True
    with Suc.prems show ?thesis by simp
  next
    case False
    with Suc have "drain_ctxts E m g st = Some r" by simp
    with drain_ctxts_step [of E m g st] show ?thesis
      by (simp add: le_res_def)
  qed
qed

lemma drain_ctxts_drain:
  "drain E n g st =
     map_option (map_sum id (\<lambda>(seen, s). (map fst seen, s))) (drain_ctxts E n g st)"
proof (induction n arbitrary: g st)
  case 0
  show ?case by simp
next
  case (Suc n)
  show ?case
    unfolding drain.simps drain_ctxts.simps Suc
    by (auto simp: bind_res_def ok_def split: option.splits sum.splits prod.splits)
qed

section \<open>Running generators\<close>

text \<open>Rules to run a generator to its end without counting steps.\<close>

lemma drain_GList_result:
  "drain E n (GList evs) st = Some r \<Longrightarrow> r = Inr (evs, st)"
proof (induction evs arbitrary: n r)
  case Nil
  then show ?case
    by (cases n; cases "n - 1") (auto simp: ok_def)
next
  case (Cons ev evs)
  from Cons.prems obtain m where n: "n = Suc (Suc m)"
    by (cases n; cases "n - 1") auto
  from Cons.prems obtain r' where r': "drain E (Suc m) (GList evs) st = Some r'"
    unfolding n by (cases "drain E (Suc m) (GList evs) st") (auto simp: ok_def)
  from Cons.IH [OF r'] r' Cons.prems show ?case
    unfolding n by (auto simp: ok_def)
qed

lemma drain_GList: "drain E (length evs + 2) (GList evs) st = Some (Inr (evs, st))"
  by (induction evs) (auto simp: ok_def)

lemma drains_end:
  "pull E m g st = Some (Inr (None, g', st')) \<Longrightarrow> drain E (Suc m) g st = Some (Inr ([], st'))"
  by (simp add: ok_def)

lemma drains_yield:
  assumes "pull E m g st = Some (Inr (Some ev, g', st'))"
    and "drain E n g' st' = Some (Inr (evs, st''))"
  shows "\<exists>k. drain E k g st = Some (Inr (ev # evs, st''))"
proof -
  from assms(1) have "pull E (max m n) g st = Some (Inr (Some ev, g', st'))"
    by (rule pull_mono) simp
  moreover from assms(2) have "drain E (max m n) g' st' = Some (Inr (evs, st''))"
    by (rule drain_mono) simp
  ultimately have "drain E (Suc (max m n)) g st = Some (Inr (ev # evs, st''))"
    by (simp add: ok_def)
  then show ?thesis ..
qed

lemma drains_silent:
  assumes step: "\<And>k. k0 \<le> k \<Longrightarrow> pull E (Suc k) g st = pull E k g' st'"
    and run: "drain E n g' st' = Some r"
  shows "\<exists>k. drain E k g st = Some r"
proof -
  from run obtain m where n: "n = Suc m" by (cases n) auto
  define K where "K = max m k0"
  from run have "drain E (Suc K) g' st' = Some r"
    by (rule drain_mono) (simp add: n K_def)
  then have a: "bind_res (pull E K g' st')
      (\<lambda>(evo, g', st'). case evo of None \<Rightarrow> ok ([], st')
         | Some ev \<Rightarrow> bind_res (drain E K g' st') (\<lambda>(evs, st''). ok (ev # evs, st''))) = Some r"
    by simp
  have "le_res
     (bind_res (pull E K g' st')
      (\<lambda>(evo, g', st'). case evo of None \<Rightarrow> ok ([], st')
         | Some ev \<Rightarrow> bind_res (drain E K g' st') (\<lambda>(evs, st''). ok (ev # evs, st''))))
     (bind_res (pull E K g' st')
      (\<lambda>(evo, g', st'). case evo of None \<Rightarrow> ok ([], st')
         | Some ev \<Rightarrow> bind_res (drain E (Suc K) g' st') (\<lambda>(evs, st''). ok (ev # evs, st''))))"
    using fuel_step [of E K]
    by (auto intro!: le_res_bind split: option.split prod.split)
  with a have "bind_res (pull E K g' st')
      (\<lambda>(evo, g', st'). case evo of None \<Rightarrow> ok ([], st')
         | Some ev \<Rightarrow> bind_res (drain E (Suc K) g' st') (\<lambda>(evs, st''). ok (ev # evs, st''))) = Some r"
    by (simp add: le_res_def)
  moreover have "pull E (Suc K) g st = pull E K g' st'"
    by (rule step) (simp add: K_def)
  ultimately have "drain E (Suc (Suc K)) g st = Some r"
    by simp
  then show ?thesis ..
qed

lemma ctxts_end:
  "pull E m g st = Some (Inr (None, g', st')) \<Longrightarrow>
   drain_ctxts E (Suc m) g st = Some (Inr ([], st'))"
  by (simp add: ok_def)

lemma ctxts_yield:
  assumes "pull E m g st = Some (Inr (Some ev, g', st'))"
    and "drain_ctxts E n g' st' = Some (Inr (seen, st''))"
  shows "\<exists>k. drain_ctxts E k g st = Some (Inr ((ev, ctxt st') # seen, st''))"
proof -
  from assms(1) have "pull E (max m n) g st = Some (Inr (Some ev, g', st'))"
    by (rule pull_mono) simp
  moreover from assms(2) have "drain_ctxts E (max m n) g' st' = Some (Inr (seen, st''))"
    by (rule drain_ctxts_mono) simp
  ultimately have "drain_ctxts E (Suc (max m n)) g st = Some (Inr ((ev, ctxt st') # seen, st''))"
    by (simp add: ok_def)
  then show ?thesis ..
qed

lemma ctxts_first_pull:
  assumes sim: "\<And>n r. pull E n g' st' = Some r \<Longrightarrow> \<exists>m. pull E m g st = Some r"
    and run: "drain_ctxts E n g' st' = Some r"
  shows "\<exists>k. drain_ctxts E k g st = Some r"
proof -
  from run obtain j where n: "n = Suc j" by (cases n) auto
  from run obtain a where a: "pull E j g' st' = Some a"
    unfolding n by (cases "pull E j g' st'") auto
  from sim [OF a] obtain m where m: "pull E m g st = Some a" ..
  define K where "K = max j m"
  from a have "pull E K g' st' = Some a" by (rule pull_mono) (simp add: K_def)
  moreover from m have "pull E K g st = Some a" by (rule pull_mono) (simp add: K_def)
  moreover from run have "drain_ctxts E (Suc K) g' st' = Some r"
    by (rule drain_ctxts_mono) (simp add: n K_def)
  ultimately have "drain_ctxts E (Suc K) g st = Some r" by simp
  then show ?thesis ..
qed







lemma generate_mono:
  "generate E post n stream st = Some r \<Longrightarrow> n \<le> m \<Longrightarrow> generate E post m stream st = Some r"
  unfolding generate_def
  by (cases "drain E n (mk_transform (GList stream)) st")
     (auto dest: drain_mono [where m = m])

section \<open>Properties of the context\<close>

lemma apply_ctxt_op_height:
  "apply_ctxt_op c x = Inr c' \<Longrightarrow>
     length (stack c') + (if is_pop x then 1 else 0) =
     length (stack c) + (if is_push x then 1 else 0)"
  by (cases x) (auto simp: push_def pop_def setitem_def split: if_splits list.splits)

text \<open>
  Claim C2, as amended.  \<^verbatim>\<open>Context.pop\<close> on an empty stack raises the \<^verbatim>\<open>AssertionError\<close>
  with the message \<^verbatim>\<open>Pop from empty context stack\<close>; on any other stack it removes the
  top-most frame, the one pushed last, and nothing else, also when that frame is the
  last one: popping a freshly constructed context succeeds and leaves the stack empty.
  Over every sequence of push, pop and set operations that runs without error the stack
  height is the starting height plus the pushes minus the pops, so it can reach zero:
  the base frame is not protected.
\<close>

theorem pop_height_accounting:
  "pop c =
     (case stack c of
        [] \<Rightarrow> Inl (AssertionError ''Pop from empty context stack'')
      | fr # frs \<Rightarrow> Inr (c\<lparr>stack := frs\<rparr>)) \<and>
   pop (Context_init data) = Inr \<lparr>stack = []\<rparr> \<and>
   (run_ctxt_ops c ops = Inr c' \<longrightarrow>
      length (stack c') + length (filter is_pop ops) =
      length (stack c) + length (filter is_push ops))"
proof -
  have removes: "pop c =
     (case stack c of
        [] \<Rightarrow> Inl (AssertionError ''Pop from empty context stack'')
      | fr # frs \<Rightarrow> Inr (c\<lparr>stack := frs\<rparr>))"
    by (simp add: pop_def split: list.split)
  have base: "pop (Context_init data) = Inr \<lparr>stack = []\<rparr>"
    by (simp add: pop_def Context_init_def)
  have height: "length (stack c') + length (filter is_pop ops) =
      length (stack c) + length (filter is_push ops)"
    if "run_ctxt_ops c ops = Inr c'"
    using that
  proof (induction ops arbitrary: c)
    case Nil
    then show ?case by simp
  next
    case (Cons x xs)
    from Cons.prems obtain c1 where
      step: "apply_ctxt_op c x = Inr c1" and rest: "run_ctxt_ops c1 xs = Inr c'"
      by (auto split: sum.splits)
    from apply_ctxt_op_height [OF step] Cons.IH [OF rest]
    show ?case by (auto split: if_splits)
  qed
  from removes base height show ?thesis by blast
qed

theorem pop_height_accounting_witness:
  "run_ctxt_ops (Context_init [(''one'', PStr ''foo'')])
       [OpPush [(''two'', PStr ''bar'')], OpPop, OpPop] = Inr \<lparr>stack = []\<rparr> \<and>
   length (stack \<lparr>stack = []\<rparr>) +
     length (filter is_pop [OpPush [(''two'', PStr ''bar'')], OpPop, OpPop]) =
   length (stack (Context_init [(''one'', PStr ''foo'')])) +
     length (filter is_push [OpPush [(''two'', PStr ''bar'')], OpPop, OpPop]) \<and>
   pop (push [(''two'', PStr ''bar'')] (Context_init [(''one'', PStr ''foo'')])) =
     Inr (Context_init [(''one'', PStr ''foo'')]) \<and>
   pop \<lparr>stack = []\<rparr> = Inl (AssertionError ''Pop from empty context stack'')"
proof -
  have run: "run_ctxt_ops (Context_init [(''one'', PStr ''foo'')])
       [OpPush [(''two'', PStr ''bar'')], OpPop, OpPop] = Inr \<lparr>stack = []\<rparr>"
    by (simp add: Context_init_def pop_def push_def)
  have top: "stack (push [(''two'', PStr ''bar'')] (Context_init [(''one'', PStr ''foo'')])) =
      [(''two'', PStr ''bar'')] # [[(''one'', PStr ''foo'')]]"
    by (simp add: Context_init_def push_def)
  have "pop (push [(''two'', PStr ''bar'')] (Context_init [(''one'', PStr ''foo'')])) =
     Inr (Context_init [(''one'', PStr ''foo'')])"
    using pop_height_accounting
      [of "push [(''two'', PStr ''bar'')] (Context_init [(''one'', PStr ''foo'')])" "[]" "[]"]
    by (simp add: top) (simp add: Context_init_def push_def)
  moreover have "pop \<lparr>stack = []\<rparr> = Inl (AssertionError ''Pop from empty context stack'')"
    using pop_height_accounting [of "\<lparr>stack = []\<rparr>" "[]" "[]"]
    by simp
  moreover note run
    pop_height_accounting [of "Context_init [(''one'', PStr ''foo'')]" "[]"
      "[OpPush [(''two'', PStr ''bar'')], OpPop, OpPop]" "\<lparr>stack = []\<rparr>"]
  ultimately show ?thesis by simp
qed

text \<open>
  Claim C2, as stated, fails: popping a freshly constructed context, which holds only
  its base frame, is a silent success that leaves the stack empty.
\<close>

theorem pop_base_frame_counterexample:
  "pop (Context_init [(''one'', PStr ''foo'')]) = Inr \<lparr>stack = []\<rparr>"
  by (simp add: Context_init_def pop_def)

text \<open>
  Claim C9.  A push followed immediately by a pop restores the context: the pop
  succeeds and returns the context as it was before the push, so the frames on the stack
  are the same and every lookup gives the same value as before.
\<close>

theorem push_pop_restores:
  "pop (push data c) = Inr c \<and>
   (case pop (push data c) of Inl e \<Rightarrow> False | Inr c' \<Rightarrow> stack c' = stack c \<and> get c' key = get c key)"
  by (simp add: push_def pop_def)

section \<open>Properties of the interpolation\<close>

lemma interpolate_groups_no_patterns:
  "\<exists>evs. interpolate_groups recur p idx grps [] = Some (Inr (evs, []))"
proof (induction grps arbitrary: idx)
  case Nil
  show ?case by simp
next
  case (Cons grp grps)
  from Cons [of "idx + 1"] obtain evs where
    "interpolate_groups recur p (idx + 1) grps [] = Some (Inr (evs, []))" ..
  then show ?case by simp
qed

lemma interpolate_inner_last_pattern:
  "\<exists>evs. interpolate_inner (Suc n) p [pat] text = Some (Inr (evs, []))"
  using interpolate_groups_no_patterns by simp

lemma interpolate_groups_one_pattern:
  "patterns = [pat] \<or> patterns = [] \<Longrightarrow>
   \<exists>evs ps. interpolate_groups (interpolate_inner (Suc n) p) p idx grps patterns = Some (Inr (evs, ps))"
proof (induction grps arbitrary: idx patterns)
  case Nil
  then show ?case
    by simp
next
  case (Cons grp grps)
  show ?case
  proof (cases "patterns = []")
    case True
    then show ?thesis
      using interpolate_groups_no_patterns [of "interpolate_inner (Suc n) p" p idx "grp # grps"]
      by blast
  next
    case False
    with Cons.prems have pats: "patterns = [pat]" by simp
    from interpolate_inner_last_pattern obtain evs1 where
      inner: "interpolate_inner (Suc n) p [pat] grp = Some (Inr (evs1, []))" by blast
    from interpolate_groups_no_patterns obtain evs2 where
      after: "interpolate_groups (interpolate_inner (Suc n) p) p (idx + 1) grps [] = Some (Inr (evs2, []))"
      by blast
    from Cons.IH [of "[pat]" "idx + 1"] obtain evs3 ps3 where
      same: "interpolate_groups (interpolate_inner (Suc n) p) p (idx + 1) grps [pat] = Some (Inr (evs3, ps3))"
      by blast
    from inner after same show ?thesis
      unfolding pats by (simp del: interpolate_inner.simps)
  qed
qed

lemma interpolate_returns: "\<exists>evs. interpolate text p = Some (Inr evs)"
proof -
  from interpolate_groups_one_pattern [of "[SHORT_EXPR_RE]" SHORT_EXPR_RE 0 p 0 "split FULL_EXPR_RE text"]
  obtain evs ps where
    "interpolate_groups (interpolate_inner (Suc 0) p) p 0 (split FULL_EXPR_RE text) [SHORT_EXPR_RE] =
       Some (Inr (evs, ps))"
    by blast
  then show ?thesis
    by (simp add: interpolate_def numeral_2_eq_2)
qed

text \<open>
  Claim C4 at the text \<^verbatim>\<open>$a ${b} $c\<close>.  The braced split leaves the residue segments
  \<^verbatim>\<open>'$a '\<close> and \<^verbatim>\<open>' $c'\<close>.  The first one is scanned for the short form and gives the
  expression \<^verbatim>\<open>a\<close>; that scan removes the short pattern from \<^verbatim>\<open>patterns\<close>, so the second
  residue segment is emitted as the literal text \<^verbatim>\<open>' $c'\<close> and \<^verbatim>\<open>$c\<close> never becomes an
  \<^verbatim>\<open>EXPR\<close> event.
\<close>

theorem interpolate_second_residue_literal:
  "interpolate ''$a ${b} $c'' (1, 0) =
     Some (Inr [Event EXPR (DExpr (Some ''a'')) (1, 0),
                Event TEXT (DText '' '') (1, 0),
                Event EXPR (DExpr (Some ''b'')) (1, 0),
                Event TEXT (DText '' $c'') (1, 0)])"
  by (simp add: interpolate_def split_def is_alpha_def is_name_char_def numeral_2_eq_2)

section \<open>Properties of the function-definition directive\<close>

lemma exec_scope_absent:
  "name \<notin> set names \<Longrightarrow>
   map_of (exec_scope names defaults args kwargs scope) name = map_of scope name"
  by (induction names arbitrary: args kwargs scope)
     (auto simp: update_conv' split: list.splits)

lemma exec_scope_missing:
  "i < length names \<Longrightarrow> names ! i = name \<Longrightarrow> length args \<le> i \<Longrightarrow>
   map_of kwargs name = None \<Longrightarrow> map_of defaults name = None \<Longrightarrow>
   map_of (exec_scope names defaults args kwargs scope) name = Some PNone"
proof (induction names arbitrary: i args kwargs scope)
  case Nil
  then show ?case by simp
next
  case (Cons f fs)
  show ?case
  proof (cases args)
    case (Cons a args')
    with Cons.prems obtain j where j: "i = Suc j" by (cases i) auto
    with Cons.prems Cons have "j < length fs" "fs ! j = name" "length args' \<le> j" by auto
    from Cons.IH [OF this Cons.prems(4,5)] show ?thesis
      using Cons by simp
  next
    case Nil
    show ?thesis
    proof (cases i)
      case (Suc j)
      with Cons.prems have "j < length fs" "fs ! j = name" "length ([]::pyval list) \<le> j" by auto
      moreover from Cons.prems(4) have "map_of (AList.delete f kwargs) name = None"
        by (simp add: delete_conv')
      ultimately show ?thesis
        using Cons.IH Cons.prems(5) Nil by simp
    next
      case 0
      with Cons.prems have f: "f = name" by simp
      show ?thesis
      proof (cases "name \<in> set fs")
        case False
        then show ?thesis
          using Nil f Cons.prems(4,5) by (simp add: exec_scope_absent update_conv')
      next
        case True
        then obtain j where "j < length fs" "fs ! j = name"
          by (auto simp: in_set_conv_nth)
        moreover from Cons.prems(4) have "map_of (AList.delete f kwargs) name = None"
          by (simp add: delete_conv')
        ultimately show ?thesis
          using Cons.IH [of j "[]"] Cons.prems(5) Nil by simp
      qed
    qed
  qed
qed

lemma get_push_bound:
  "map_of scope name = Some v \<Longrightarrow> get (push scope c) name = v"
  by (simp add: get_def push_def)

text \<open>
  Claim C10.  When a callable made by \<^verbatim>\<open>py:def\<close> is invoked without a value for a
  formal parameter that has no declared default (the positional arguments end before
  its place \<open>i\<close>, and neither the keyword arguments nor the defaults name it), then
  the frame that \<^verbatim>\<open>_exec\<close> pushes binds that name to \<^verbatim>\<open>None\<close>, a lookup of the name in
  the context after the push gives \<^verbatim>\<open>None\<close>, and the first step of \<^verbatim>\<open>_exec\<close> raises
  nothing: it pushes the frame and yields the first captured event (or pops the frame
  again and ends when nothing was captured).
\<close>

theorem exec_missing_argument_is_None:
  assumes "i < length formals" and "formals ! i = name" and "length args \<le> i"
    and "map_of kwargs name = None" and "map_of defaults name = None"
  shows "map_of (exec_scope formals defaults args kwargs []) name = Some PNone \<and>
         get (push (exec_scope formals defaults args kwargs []) (ctxt st)) name = PNone \<and>
         pull E (Suc (Suc n)) (GExec did formals defaults args kwargs) st =
           (case captured st did of
              [] \<Rightarrow> Some (Inr (None, GList [], st))
            | ev # evs \<Rightarrow>
                Some (Inr (Some ev, GExecBody evs,
                  st\<lparr>ctxt := push (exec_scope formals defaults args kwargs []) (ctxt st)\<rparr>)))"
proof -
  have bound: "map_of (exec_scope formals defaults args kwargs []) name = Some PNone"
    using assms by (rule exec_scope_missing)
  have "pull E (Suc (Suc n)) (GExec did formals defaults args kwargs) st =
           (case captured st did of
              [] \<Rightarrow> Some (Inr (None, GList [], st))
            | ev # evs \<Rightarrow>
                Some (Inr (Some ev, GExecBody evs,
                  st\<lparr>ctxt := push (exec_scope formals defaults args kwargs []) (ctxt st)\<rparr>)))"
    by (simp add: ok_def raise_def push_def pop_def split: list.splits)
  with bound get_push_bound [OF bound] show ?thesis by simp
qed

theorem exec_missing_argument_is_None_witness:
  "map_of (exec_scope [''greeting'', ''name''] [] [PStr ''hi''] [] []) ''name'' = Some PNone \<and>
   get (push (exec_scope [''greeting'', ''name''] [] [PStr ''hi''] [] []) (ctxt echo_state)) ''name'' = PNone \<and>
   pull sample_env (Suc (Suc 0)) (GExec 0 [''greeting'', ''name''] [] [PStr ''hi''] []) echo_state =
     Some (Inr (Some (Event TEXT (DText ''hi'') (3, 4)), GExecBody [],
       echo_state\<lparr>ctxt := push [(''greeting'', PStr ''hi''), (''name'', PNone)] (ctxt echo_state)\<rparr>))"
proof -
  have "exec_scope [''greeting'', ''name''] [] [PStr ''hi''] [] [] =
          [(''greeting'', PStr ''hi''), (''name'', PNone)]"
    by simp
  moreover have "captured echo_state 0 = [Event TEXT (DText ''hi'') (3, 4)]"
    by (simp add: echo_state_def)
  ultimately show ?thesis
    using exec_missing_argument_is_None
      [of 1 "[''greeting'', ''name'']" "''name''" "[PStr ''hi'']" "[]" "[]" echo_state sample_env 0 0]
    by simp
qed


section \<open>Properties of the attribute-merge directive\<close>

lemma unpack2_pair [simp]: "unpack2 (PTuple [a, b]) = Inr (a, b)"
  by (simp add: unpack2_def)

lemma merge_attrs_pairs:
  "\<exists>attrib'. merge_attrs E (map (\<lambda>(key, v). PTuple [PStr key, v]) kvs) attrib = Inr attrib' \<and>
     (\<forall>q. map_of attrib' q =
        (case q of
           QName None s \<Rightarrow>
             (case map_of (rev kvs) s of
                None \<Rightarrow> map_of attrib q
              | Some v \<Rightarrow> if v = PNone then None else Some (AText (py_strip (unicode_of E v))))
         | QName (Some ns) l \<Rightarrow> map_of attrib q))"
proof (induction kvs arbitrary: attrib)
  case Nil
  show ?case by (auto split: qname.splits option.splits)
next
  case (Cons kv kvs)
  obtain key v where kv: "kv = (key, v)" by (cases kv)
  define attrib1 where
    "attrib1 = (if v = PNone then attrib_remove key attrib
                else attrib_set key (py_strip (unicode_of E v)) attrib)"
  from Cons [of attrib1] obtain attrib' where
    run: "merge_attrs E (map (\<lambda>(key, v). PTuple [PStr key, v]) kvs) attrib1 = Inr attrib'"
    and look: "\<And>q. map_of attrib' q =
        (case q of
           QName None s \<Rightarrow>
             (case map_of (rev kvs) s of
                None \<Rightarrow> map_of attrib1 q
              | Some v \<Rightarrow> if v = PNone then None else Some (AText (py_strip (unicode_of E v))))
         | QName (Some ns) l \<Rightarrow> map_of attrib1 q)"
    by blast
  have step: "merge_attrs E (map (\<lambda>(key, v). PTuple [PStr key, v]) (kv # kvs)) attrib = Inr attrib'"
    using run by (cases "v = PNone") (simp_all add: kv attrib1_def)
  have first: "map_of attrib1 q =
      (if q = QName None key
       then (if v = PNone then None else Some (AText (py_strip (unicode_of E v))))
       else map_of attrib q)" for q
    by (simp add: attrib1_def attrib_remove_def attrib_set_def delete_conv' update_conv')
  have "map_of attrib' q =
        (case q of
           QName None s \<Rightarrow>
             (case map_of (rev (kv # kvs)) s of
                None \<Rightarrow> map_of attrib q
              | Some v \<Rightarrow> if v = PNone then None else Some (AText (py_strip (unicode_of E v))))
         | QName (Some ns) l \<Rightarrow> map_of attrib q)" for q
    unfolding look [of q] first
    by (auto simp: kv map_add_def split: qname.splits option.splits)
  with step show ?case by blast
qed

text \<open>
  Claim C7, as amended.  Let the stream start with the start tag \<^verbatim>\<open>(tag, attrib)\<close> and
  let the expression evaluate to \<open>attrs\<close>.  If \<open>attrs\<close> is falsy the start tag is
  yielded as it is.  If \<open>attrs\<close> is truthy and is a dict or a list of
  \<^verbatim>\<open>(key, value)\<close> pairs with string keys, the start tag is yielded with new attributes:
  a key whose (last) value is \<^verbatim>\<open>None\<close> is absent, a key with another value \<open>v\<close> has
  the value \<^verbatim>\<open>unicode(v).strip()\<close>, that is the value stringified and then stripped of
  leading and trailing whitespace, and every other attribute is as before.  In both cases
  the store is unchanged and the generator continues as the rest of its source, so the
  rest of the stream passes through unchanged.
\<close>

theorem attrs_directive_merges:
  assumes "pull E n src st = Some (Inr (Some (Event k (DStart tag attrib) p), src', st'))"
    and "eval_expr E eo (ctxt st') PNone = Inr attrs"
  shows "(\<not> truthy attrs \<longrightarrow>
            pull E (Suc n) (GAttrs eo src) st =
              Some (Inr (Some (Event k (DStart tag attrib) p), src', st'))) \<and>
         (truthy attrs \<and>
            (attrs = PDict kvs \<or> attrs = PList (map (\<lambda>(key, v). PTuple [PStr key, v]) kvs)) \<longrightarrow>
            (\<exists>attrib'.
               pull E (Suc n) (GAttrs eo src) st =
                 Some (Inr (Some (Event k (DStart tag attrib') p), src', st')) \<and>
               (\<forall>q. map_of attrib' q =
                  (case q of
                     QName None s \<Rightarrow>
                       (case map_of (rev kvs) s of
                          None \<Rightarrow> map_of attrib q
                        | Some v \<Rightarrow>
                            if v = PNone then None
                            else Some (AText (py_strip (unicode_of E v))))
                   | QName (Some ns) l \<Rightarrow> map_of attrib q))))"
proof (intro conjI impI)
  assume "\<not> truthy attrs"
  with assms show "pull E (Suc n) (GAttrs eo src) st =
      Some (Inr (Some (Event k (DStart tag attrib) p), src', st'))"
    by (simp add: attrs_first_def ok_def)
next
  assume a: "truthy attrs \<and>
    (attrs = PDict kvs \<or> attrs = PList (map (\<lambda>(key, v). PTuple [PStr key, v]) kvs))"
  then have pairs: "attrs_pairs attrs = Inr (map (\<lambda>(key, v). PTuple [PStr key, v]) kvs)"
    by (auto simp: attrs_pairs_def)
  from merge_attrs_pairs [of E kvs attrib] obtain attrib' where
    run: "merge_attrs E (map (\<lambda>(key, v). PTuple [PStr key, v]) kvs) attrib = Inr attrib'"
    and look: "\<forall>q. map_of attrib' q =
        (case q of
           QName None s \<Rightarrow>
             (case map_of (rev kvs) s of
                None \<Rightarrow> map_of attrib q
              | Some v \<Rightarrow> if v = PNone then None else Some (AText (py_strip (unicode_of E v))))
         | QName (Some ns) l \<Rightarrow> map_of attrib q)"
    by blast
  have "pull E (Suc n) (GAttrs eo src) st =
      Some (Inr (Some (Event k (DStart tag attrib') p), src', st'))"
    using assms a pairs run by (simp add: attrs_first_def ok_def)
  with look show "\<exists>attrib'.
       pull E (Suc n) (GAttrs eo src) st =
         Some (Inr (Some (Event k (DStart tag attrib') p), src', st')) \<and>
       (\<forall>q. map_of attrib' q =
          (case q of
             QName None s \<Rightarrow>
               (case map_of (rev kvs) s of
                  None \<Rightarrow> map_of attrib q
                | Some v \<Rightarrow>
                    if v = PNone then None
                    else Some (AText (py_strip (unicode_of E v))))
           | QName (Some ns) l \<Rightarrow> map_of attrib q))"
    by blast
qed

theorem attrs_directive_merges_witness:
  "pull sample_env 1 (GList li_events) li_state =
     Some (Inr (Some (Event START (DStart (html ''li'') [(html ''id'', AText ''x'')]) (2, 2)),
                GList (tl li_events), li_state)) \<and>
   eval_expr sample_env (Some ''foo'') (ctxt li_state) PNone =
     Inr (PDict [(''class'', PStr '' collapse ''), (''id'', PNone)]) \<and>
   (\<exists>attrib'.
      pull sample_env 2 (GAttrs (Some ''foo'') (GList li_events)) li_state =
        Some (Inr (Some (Event START (DStart (html ''li'') attrib') (2, 2)),
                   GList (tl li_events), li_state)) \<and>
      map_of attrib' (html ''class'') = Some (AText ''collapse'') \<and>
      map_of attrib' (html ''id'') = None \<and>
      map_of attrib' (html ''title'') = None)"
proof -
  have src: "pull sample_env 1 (GList li_events) li_state =
     Some (Inr (Some (Event START (DStart (html ''li'') [(html ''id'', AText ''x'')]) (2, 2)),
                GList (tl li_events), li_state))"
    by (simp add: li_events_def ok_def)
  have ev: "eval_expr sample_env (Some ''foo'') (ctxt li_state) PNone =
     Inr (PDict [(''class'', PStr '' collapse ''), (''id'', PNone)])"
    by (simp add: eval_expr_def sample_env_def sample_evaluate_def li_state_def Context_init_def get_def)
  have strip: "py_strip (unicode_of sample_env (PStr '' collapse '')) = ''collapse''"
    by (simp add: py_strip_def sample_env_def sample_unicode_def is_space_def)
  from attrs_directive_merges [OF src ev, of "[(''class'', PStr '' collapse ''), (''id'', PNone)]"]
  obtain attrib' where
    run: "pull sample_env (Suc 1) (GAttrs (Some ''foo'') (GList li_events)) li_state =
        Some (Inr (Some (Event START (DStart (html ''li'') attrib') (2, 2)),
                   GList (tl li_events), li_state))"
    and look: "\<And>q. map_of attrib' q =
        (case q of
           QName None s \<Rightarrow>
             (case map_of (rev [(''class'', PStr '' collapse ''), (''id'', PNone)]) s of
                None \<Rightarrow> map_of [(html ''id'', AText ''x'')] q
              | Some v \<Rightarrow>
                  if v = PNone then None
                  else Some (AText (py_strip (unicode_of sample_env v))))
         | QName (Some ns) l \<Rightarrow> map_of [(html ''id'', AText ''x'')] q)"
    by auto
  have "map_of attrib' (html ''class'') = Some (AText ''collapse'')"
    "map_of attrib' (html ''id'') = None" "map_of attrib' (html ''title'') = None"
    unfolding look by (simp_all add: html_def strip)
  with src ev run show ?thesis
    by (auto simp: numeral_2_eq_2)
qed


text \<open>
  Claim C7, as stated, fails: the value is not only stringified.  With
  \<^verbatim>\<open>foo = {'class': ' collapse ', 'id': None}\<close> the attribute \<^verbatim>\<open>class\<close> is set to
  \<^verbatim>\<open>'collapse'\<close>, which is not \<^verbatim>\<open>unicode(' collapse ')\<close>.
\<close>

theorem attrs_strips_value_counterexample:
  "map_option (map_sum id fst) (pull sample_env 2 (GAttrs (Some ''foo'') (GList li_events)) li_state) =
     Some (Inr (Some (Event START (DStart (html ''li'') [(html ''class'', AText ''collapse'')]) (2, 2)))) \<and>
   unicode_of sample_env (PStr '' collapse '') \<noteq> ''collapse''"
  by code_simp



section \<open>Properties of the iteration directive\<close>

text \<open>
  The states of \<^verbatim>\<open>ForDirective.__call__\<close> over a buffered list, seen from the store
  \<open>st0\<close> in which it started: outside the body of the loop the store is \<open>st0\<close>,
  inside it the store is \<open>st0\<close> with one frame more on the stack.
\<close>

definition for_balanced :: "state \<Rightarrow> gen \<Rightarrow> state \<Rightarrow> bool" where
  "for_balanced st0 g st =
     (case g of
        GFor targets eo src \<Rightarrow> (case src of GList body \<Rightarrow> st = st0 | _ \<Rightarrow> False)
      | GForLoop targets items body \<Rightarrow> st = st0
      | GForBody targets rest body remaining \<Rightarrow>
          stack (ctxt st) \<noteq> [] \<and> st0 = st\<lparr>ctxt := (ctxt st)\<lparr>stack := tl (stack (ctxt st))\<rparr>\<rparr>
      | GList evs \<Rightarrow> evs = [] \<and> st = st0
      | _ \<Rightarrow> False)"

lemma for_balanced_pull:
  "for_balanced st0 g st \<Longrightarrow> pull E n g st = Some (Inr (evo, g', st')) \<Longrightarrow>
   for_balanced st0 g' st' \<and> (evo = None \<longrightarrow> st' = st0)"
proof (induction n arbitrary: g st)
  case 0
  then show ?case by simp
next
  case (Suc n)
  show ?case
  proof (cases g)
    case (GList evs)
    with Suc.prems show ?thesis
      by (auto simp: for_balanced_def ok_def)
  next
    case (GFor targets eo src)
    with Suc.prems obtain body where src: "src = GList body" and st: "st = st0"
      by (auto simp: for_balanced_def split: gen.splits)
    show ?thesis
    proof (cases "eval_expr E eo (ctxt st) (PList [])")
      case (Inl e)
      with Suc.prems GFor show ?thesis by (simp add: raise_def)
    next
      case (Inr iterable)
      show ?thesis
      proof (cases "iterable = PNone")
        case True
        with Suc.prems GFor Inr st show ?thesis
          by (auto simp: ok_def for_balanced_def)
      next
        case False
        from Suc.prems(2) obtain r where r: "drain E n (GList body) st = Some r"
          unfolding GFor src using Inr False
          by (cases "drain E n (GList body) st") auto
        from drain_GList_result [OF r] r have d: "drain E n (GList body) st = Some (Inr (body, st))"
          by simp
        from Suc.prems(2) obtain items where
          "pull E n (GForLoop targets items body) st = Some (Inr (evo, g', st'))"
          unfolding GFor src using Inr False d
          by (auto simp: raise_def split: sum.splits)
        moreover have "for_balanced st0 (GForLoop targets items body) st"
          by (simp add: for_balanced_def st)
        ultimately show ?thesis
          using Suc.IH by blast
      qed
    qed
  next
    case (GForLoop targets items body)
    with Suc.prems have st: "st = st0" by (simp add: for_balanced_def)
    show ?thesis
    proof (cases items)
      case Nil
      with Suc.prems GForLoop st show ?thesis
        by (auto simp: ok_def for_balanced_def)
    next
      case (Cons item rest)
      from Suc.prems(2) obtain scope where
        run: "pull E n (GForBody targets rest body body) (st\<lparr>ctxt := push scope (ctxt st)\<rparr>) =
                Some (Inr (evo, g', st'))"
        unfolding GForLoop Cons by (auto simp: raise_def split: sum.splits)
      have "for_balanced st0 (GForBody targets rest body body) (st\<lparr>ctxt := push scope (ctxt st)\<rparr>)"
        by (simp add: for_balanced_def st push_def)
      with run show ?thesis
        using Suc.IH by blast
    qed
  next
    case (GForBody targets rest body remaining)
    with Suc.prems have ne: "stack (ctxt st) \<noteq> []"
      and st0: "st0 = st\<lparr>ctxt := (ctxt st)\<lparr>stack := tl (stack (ctxt st))\<rparr>\<rparr>"
      by (auto simp: for_balanced_def)
    show ?thesis
    proof (cases remaining)
      case (Cons ev evs)
      with Suc.prems GForBody show ?thesis
        by (auto simp: ok_def for_balanced_def)
    next
      case Nil
      from Suc.prems(2) have
        run: "pull E n (GForLoop targets rest body) st0 = Some (Inr (evo, g', st'))"
        unfolding GForBody Nil using ne st0 by (simp add: pop_def)
      have "for_balanced st0 (GForLoop targets rest body) st0"
        by (simp add: for_balanced_def)
      with run show ?thesis
        using Suc.IH by blast
    qed
  qed (use Suc.prems in \<open>simp_all add: for_balanced_def\<close>)
qed

lemma for_balanced_drain:
  "for_balanced st0 g st \<Longrightarrow> drain E n g st = Some (Inr (evs, st')) \<Longrightarrow> st' = st0"
proof (induction n arbitrary: g st evs)
  case 0
  then show ?case by simp
next
  case (Suc n)
  from Suc.prems(2) obtain evo g1 st1 where
    p: "pull E n g st = Some (Inr (evo, g1, st1))"
    by (auto simp: bind_res_def split: option.splits sum.splits)
  from for_balanced_pull [OF Suc.prems(1) p] have
    bal: "for_balanced st0 g1 st1" and fin: "evo = None \<longrightarrow> st1 = st0"
    by blast+
  show ?case
  proof (cases evo)
    case None
    with Suc.prems(2) p fin show ?thesis
      by (simp add: ok_def)
  next
    case (Some ev)
    with Suc.prems(2) p obtain evs1 where "drain E n g1 st1 = Some (Inr (evs1, st'))"
      by (auto simp: ok_def bind_res_def split: option.splits sum.splits)
    with Suc.IH [OF bal] show ?thesis by blast
  qed
qed

lemma for_body_ctxts:
  assumes "\<exists>n. drain_ctxts E n (GForLoop targets rest body) st = Some (Inr (seen, st))"
  shows "\<exists>n. drain_ctxts E n (GForBody targets rest body remaining)
                (st\<lparr>ctxt := push scope (ctxt st)\<rparr>) =
           Some (Inr (map (\<lambda>ev. (ev, push scope (ctxt st))) remaining @ seen, st))"
proof (induction remaining)
  case Nil
  from assms obtain n where
    run: "drain_ctxts E n (GForLoop targets rest body) st = Some (Inr (seen, st))" ..
  have "\<exists>m. pull E m (GForBody targets rest body []) (st\<lparr>ctxt := push scope (ctxt st)\<rparr>) = Some r"
    if "pull E k (GForLoop targets rest body) st = Some r" for k r
  proof -
    have "pull E (Suc k) (GForBody targets rest body []) (st\<lparr>ctxt := push scope (ctxt st)\<rparr>) =
          pull E k (GForLoop targets rest body) st"
      by (simp add: pop_def push_def)
    with that show ?thesis by metis
  qed
  from ctxts_first_pull [OF this run] show ?case by simp
next
  case (Cons ev remaining)
  then obtain n where
    "drain_ctxts E n (GForBody targets rest body remaining) (st\<lparr>ctxt := push scope (ctxt st)\<rparr>) =
       Some (Inr (map (\<lambda>ev. (ev, push scope (ctxt st))) remaining @ seen, st))" ..
  moreover have "pull E (Suc 0) (GForBody targets rest body (ev # remaining))
       (st\<lparr>ctxt := push scope (ctxt st)\<rparr>) =
     Some (Inr (Some ev, GForBody targets rest body remaining, st\<lparr>ctxt := push scope (ctxt st)\<rparr>))"
    by (simp add: ok_def)
  ultimately show ?case
    using ctxts_yield by fastforce
qed

lemma for_loop_ctxts:
  "map (for_scope targets) items = map Inr scopes \<Longrightarrow>
   \<exists>n. drain_ctxts E n (GForLoop targets items body) st =
          Some (Inr (concat (map (\<lambda>scope. map (\<lambda>ev. (ev, push scope (ctxt st))) body) scopes), st))"
proof (induction items arbitrary: scopes)
  case Nil
  then have "scopes = []" by simp
  moreover have "pull E (Suc 0) (GForLoop targets [] body) st = Some (Inr (None, GList [], st))"
    by (simp add: ok_def)
  from ctxts_end [OF this]
  have "\<exists>n. drain_ctxts E n (GForLoop targets [] body) st = Some (Inr ([], st))"
    by blast
  ultimately show ?case by simp
next
  case (Cons item items)
  from Cons.prems obtain scope scopes' where scopes: "scopes = scope # scopes'"
    and scope: "for_scope targets item = Inr scope"
    and rest: "map (for_scope targets) items = map Inr scopes'"
    by (cases scopes) auto
  from Cons.IH [OF rest] have
    "\<exists>n. drain_ctxts E n (GForLoop targets items body) st =
          Some (Inr (concat (map (\<lambda>scope. map (\<lambda>ev. (ev, push scope (ctxt st))) body) scopes'), st))" .
  from for_body_ctxts [OF this, of body scope] obtain n where
    run: "drain_ctxts E n (GForBody targets items body body) (st\<lparr>ctxt := push scope (ctxt st)\<rparr>) =
           Some (Inr (map (\<lambda>ev. (ev, push scope (ctxt st))) body @
                      concat (map (\<lambda>scope. map (\<lambda>ev. (ev, push scope (ctxt st))) body) scopes'), st))" ..
  have "\<exists>m. pull E m (GForLoop targets (item # items) body) st = Some r"
    if "pull E k (GForBody targets items body body) (st\<lparr>ctxt := push scope (ctxt st)\<rparr>) = Some r"
    for k r
  proof -
    have "pull E (Suc k) (GForLoop targets (item # items) body) st =
          pull E k (GForBody targets items body body) (st\<lparr>ctxt := push scope (ctxt st)\<rparr>)"
      by (simp add: scope)
    with that show ?thesis by metis
  qed
  from ctxts_first_pull [OF this run] show ?case by (simp add: scopes)
qed

lemma for_starts_loop:
  assumes "eval_expr E eo (ctxt st) (PList []) = Inr iterable" and "iterable \<noteq> PNone"
    and "drain E k src st = Some (Inr (body, st1))" and "py_iter iterable = Inr items"
    and "pull E n (GForLoop targets items body) st1 = Some r"
  shows "\<exists>m. pull E m (GFor targets eo src) st = Some r"
proof -
  from assms(3) have "drain E (max k n) src st = Some (Inr (body, st1))"
    by (rule drain_mono) simp
  moreover from assms(5) have "pull E (max k n) (GForLoop targets items body) st1 = Some r"
    by (rule pull_mono) simp
  ultimately have "pull E (Suc (max k n)) (GFor targets eo src) st = Some r"
    using assms(1,2,4) by simp
  then show ?thesis ..
qed

lemma for_run_ends:
  assumes ev: "eval_expr E eo (ctxt st) (PList []) = Inr iterable" and ne: "iterable \<noteq> PNone"
    and src: "drain E k src st = Some (Inr (body, st1))"
    and run: "drain E m (GFor targets eo src) st = Some (Inr (evs, st'))"
  shows "st' = st1"
proof -
  from run obtain j where m: "m = Suc j" by (cases m) auto
  from run obtain evo g1 s1 where
    p: "pull E j (GFor targets eo src) st = Some (Inr (evo, g1, s1))"
    unfolding m by (auto simp: bind_res_def split: option.splits sum.splits)
  then obtain i where j: "j = Suc i" by (cases j) auto
  from p ev ne obtain r where r: "drain E i src st = Some r"
    unfolding j by (cases "drain E i src st") auto
  have "r = Inr (body, st1)"
  proof -
    from r have "drain E (max i k) src st = Some r" by (rule drain_mono) simp
    moreover from src have "drain E (max i k) src st = Some (Inr (body, st1))"
      by (rule drain_mono) simp
    ultimately show ?thesis by simp
  qed
  with r have d: "drain E i src st = Some (Inr (body, st1))" by simp
  from p ev ne d obtain items where
    loop: "pull E i (GForLoop targets items body) st1 = Some (Inr (evo, g1, s1))"
    unfolding j by (auto simp: raise_def split: sum.splits)
  have bal: "for_balanced st1 (GForLoop targets items body) st1"
    by (simp add: for_balanced_def)
  from for_balanced_pull [OF bal loop] have
    b1: "for_balanced st1 g1 s1" and fin: "evo = None \<longrightarrow> s1 = st1"
    by blast+
  show ?thesis
  proof (cases evo)
    case None
    with run p fin show ?thesis
      unfolding m by (simp add: ok_def)
  next
    case (Some ev')
    with run p obtain evs1 where "drain E j g1 s1 = Some (Inr (evs1, st'))"
      unfolding m by (auto simp: ok_def bind_res_def split: option.splits sum.splits)
    from for_balanced_drain [OF b1 this] show ?thesis .
  qed
qed

text \<open>
  Claim C6.  Let the expression of \<^verbatim>\<open>py:for\<close> evaluate (with the default \<^verbatim>\<open>[]\<close> that
  \<^verbatim>\<open>__call__\<close> passes) to \<open>iterable\<close>, and let a consumer take the events of the directive
  over any source, noting the context with each event.

  If \<open>iterable\<close> is \<^verbatim>\<open>None\<close>, the directive ends at once: the consumer receives no event,
  the source is not touched and the store is as it was; every run that returns, returns
  this.

  Otherwise the directive first buffers its source, which yields the list \<open>body\<close> and
  leaves the store \<open>st1\<close> (the store \<open>st\<close> it started in when the source is a list).
  Every run that hands all its events to the consumer ends in the store \<open>st1\<close>, so the
  stack has the height it had.  When \<open>iterable\<close> can be iterated and every item can be
  bound to the targets, the directive runs to its end and the consumer receives \<open>body\<close>
  once per item, nothing for no item, every event of a pass with the context that has
  exactly the frame of that item pushed on the stack of \<open>st1\<close>.

  In the loop itself, a pass for an item starts with one \<^verbatim>\<open>push\<close> of the frame of the item
  and, when the events of the pass are handed out, ends with one \<^verbatim>\<open>pop\<close>.
\<close>

theorem for_directive_balanced:
  assumes "eval_expr E eo (ctxt st) (PList []) = Inr iterable"
  shows
    "(iterable = PNone \<longrightarrow>
        (\<exists>m. drain_ctxts E m (GFor targets eo src) st = Some (Inr ([], st))) \<and>
        (\<forall>m r. drain_ctxts E m (GFor targets eo src) st = Some r \<longrightarrow> r = Inr ([], st))) \<and>
     (iterable \<noteq> PNone \<and> drain E k src st = Some (Inr (body, st1)) \<longrightarrow>
        (\<forall>b. src = GList b \<longrightarrow> body = b \<and> st1 = st) \<and>
        (\<forall>m seen st'. drain_ctxts E m (GFor targets eo src) st = Some (Inr (seen, st')) \<longrightarrow>
           st' = st1 \<and> length (stack (ctxt st')) = length (stack (ctxt st1))) \<and>
        (py_iter iterable = Inr items \<and> map (for_scope targets) items = map Inr scopes \<longrightarrow>
           (\<exists>m. drain_ctxts E m (GFor targets eo src) st =
              Some (Inr (concat (map (\<lambda>scope. map (\<lambda>ev. (ev, push scope (ctxt st1))) body) scopes),
                         st1))))) \<and>
     (for_scope targets item = Inr scope \<longrightarrow>
        pull E (Suc n) (GForLoop targets (item # rest) body) st =
          pull E n (GForBody targets rest body body) (st\<lparr>ctxt := push scope (ctxt st)\<rparr>)) \<and>
     pull E (Suc n) (GForBody targets rest body []) st =
       (case pop (ctxt st) of
          Inl e \<Rightarrow> Some (Inl e)
        | Inr c \<Rightarrow> pull E n (GForLoop targets rest body) (st\<lparr>ctxt := c\<rparr>))"
proof (intro conjI impI allI)
  assume none: "iterable = PNone"
  with assms have one: "drain_ctxts E (Suc (Suc 0)) (GFor targets eo src) st = Some (Inr ([], st))"
    by (simp add: ok_def)
  then show "\<exists>m. drain_ctxts E m (GFor targets eo src) st = Some (Inr ([], st))" ..
  fix m r
  assume "drain_ctxts E m (GFor targets eo src) st = Some r"
  then have "drain_ctxts E (max m (Suc (Suc 0))) (GFor targets eo src) st = Some r"
    by (rule drain_ctxts_mono) simp
  moreover from one have
    "drain_ctxts E (max m (Suc (Suc 0))) (GFor targets eo src) st = Some (Inr ([], st))"
    by (rule drain_ctxts_mono) simp
  ultimately show "r = Inr ([], st)" by simp
next
  fix b
  assume "iterable \<noteq> PNone \<and> drain E k src st = Some (Inr (body, st1))" and "src = GList b"
  then have "drain E k (GList b) st = Some (Inr (body, st1))" by simp
  from drain_GList_result [OF this] show "body = b" and "st1 = st" by simp_all
next
  fix m seen st'
  assume a: "iterable \<noteq> PNone \<and> drain E k src st = Some (Inr (body, st1))"
    and run: "drain_ctxts E m (GFor targets eo src) st = Some (Inr (seen, st'))"
  from run have "drain E m (GFor targets eo src) st = Some (Inr (map fst seen, st'))"
    by (simp add: drain_ctxts_drain)
  with assms a show "st' = st1"
    using for_run_ends by blast
  then show "length (stack (ctxt st')) = length (stack (ctxt st1))" by simp
next
  assume a: "iterable \<noteq> PNone \<and> drain E k src st = Some (Inr (body, st1))"
    and b: "py_iter iterable = Inr items \<and> map (for_scope targets) items = map Inr scopes"
  from b for_loop_ctxts [of targets items scopes E body st1] obtain j where
    run: "drain_ctxts E j (GForLoop targets items body) st1 =
       Some (Inr (concat (map (\<lambda>scope. map (\<lambda>ev. (ev, push scope (ctxt st1))) body) scopes), st1))"
    by blast
  have "\<exists>m. pull E m (GFor targets eo src) st = Some r"
    if "pull E i (GForLoop targets items body) st1 = Some r" for i r
    using assms a b that for_starts_loop by blast
  from ctxts_first_pull [OF this run]
  show "\<exists>m. drain_ctxts E m (GFor targets eo src) st =
              Some (Inr (concat (map (\<lambda>scope. map (\<lambda>ev. (ev, push scope (ctxt st1))) body) scopes),
                         st1))" .
next
  assume "for_scope targets item = Inr scope"
  then show "pull E (Suc n) (GForLoop targets (item # rest) body) st =
          pull E n (GForBody targets rest body body) (st\<lparr>ctxt := push scope (ctxt st)\<rparr>)"
    by simp
next
  show "pull E (Suc n) (GForBody targets rest body []) st =
       (case pop (ctxt st) of
          Inl e \<Rightarrow> Some (Inl e)
        | Inr c \<Rightarrow> pull E n (GForLoop targets rest body) (st\<lparr>ctxt := c\<rparr>))"
    by (simp add: raise_def split: sum.split)
qed

theorem for_directive_balanced_witness:
  "eval_expr lookup_env (Some ''missing'') (ctxt loop_state) (PList []) = Inr PNone \<and>
   (\<exists>m. drain_ctxts lookup_env m (GFor [''item''] (Some ''missing'') (GList loop_body)) loop_state =
           Some (Inr ([], loop_state))) \<and>
   eval_expr sample_env (Some ''nothing'') (ctxt loop_state) (PList []) = Inr (PList []) \<and>
   (\<exists>m. drain_ctxts sample_env m (GFor [''item''] (Some ''nothing'') (GList loop_body)) loop_state =
           Some (Inr ([], loop_state))) \<and>
   eval_expr sample_env (Some ''items'') (ctxt loop_state) (PList []) =
     Inr (PList [PInt 1, PInt 2, PInt 3]) \<and>
   drain sample_env 5 (GList loop_body) loop_state = Some (Inr (loop_body, loop_state)) \<and>
   map (for_scope [''item'']) [PInt 1, PInt 2, PInt 3] =
     map Inr [[(''item'', PInt 1)], [(''item'', PInt 2)], [(''item'', PInt 3)]] \<and>
   (\<exists>m. drain_ctxts sample_env m (GFor [''item''] (Some ''items'') (GList loop_body)) loop_state =
           Some (Inr (map (\<lambda>ev. (ev, push [(''item'', PInt 1)] (ctxt loop_state))) loop_body @
                      map (\<lambda>ev. (ev, push [(''item'', PInt 2)] (ctxt loop_state))) loop_body @
                      map (\<lambda>ev. (ev, push [(''item'', PInt 3)] (ctxt loop_state))) loop_body,
                      loop_state))) \<and>
   for_scope [''item''] (PInt 1) = Inr [(''item'', PInt 1)] \<and>
   pull sample_env (Suc (Suc 0)) (GForLoop [''item''] [PInt 1] loop_body) loop_state =
     Some (Inr (Some (Event START (DStart (html ''li'') []) (2, 2)),
                GForBody [''item''] [] loop_body (tl loop_body),
                loop_state\<lparr>ctxt := push [(''item'', PInt 1)] (ctxt loop_state)\<rparr>)) \<and>
   pull sample_env (Suc (Suc 0)) (GForBody [''item''] [] loop_body [])
       (loop_state\<lparr>ctxt := push [(''item'', PInt 1)] (ctxt loop_state)\<rparr>) =
     Some (Inr (None, GList [], loop_state))"
proof -
  have none: "eval_expr lookup_env (Some ''missing'') (ctxt loop_state) (PList []) = Inr PNone"
    by (simp add: eval_expr_def lookup_env_def loop_state_def Context_init_def get_def)
  have ev0: "eval_expr sample_env (Some ''nothing'') (ctxt loop_state) (PList []) = Inr (PList [])"
    by (simp add: eval_expr_def sample_env_def sample_evaluate_def loop_state_def
        Context_init_def get_def)
  have ev: "eval_expr sample_env (Some ''items'') (ctxt loop_state) (PList []) =
     Inr (PList [PInt 1, PInt 2, PInt 3])"
    by (simp add: eval_expr_def sample_env_def sample_evaluate_def loop_state_def
        Context_init_def get_def)
  have len: "length loop_body + 2 = 5"
    by (simp add: loop_body_def)
  have src: "drain sample_env 5 (GList loop_body) loop_state = Some (Inr (loop_body, loop_state))"
    using drain_GList [of sample_env loop_body loop_state] unfolding len .
  have scopes: "map (for_scope [''item'']) [PInt 1, PInt 2, PInt 3] =
     map Inr [[(''item'', PInt 1)], [(''item'', PInt 2)], [(''item'', PInt 3)]]"
    by (simp add: for_scope_def)
  have scope: "for_scope [''item''] (PInt 1) = Inr [(''item'', PInt 1)]"
    by (simp add: for_scope_def)
  from for_directive_balanced [OF none, of "[''item'']" "GList loop_body"]
  have "\<exists>m. drain_ctxts lookup_env m (GFor [''item''] (Some ''missing'') (GList loop_body)) loop_state =
           Some (Inr ([], loop_state))"
    by simp
  moreover
  from src for_directive_balanced [OF ev0, of "[''item'']" "GList loop_body" 5 loop_body loop_state
      "[]" "[]"]
  have "\<exists>m. drain_ctxts sample_env m (GFor [''item''] (Some ''nothing'') (GList loop_body)) loop_state =
           Some (Inr ([], loop_state))"
    by simp
  moreover
  from src scopes for_directive_balanced [OF ev, of "[''item'']" "GList loop_body" 5 loop_body loop_state
      "[PInt 1, PInt 2, PInt 3]" "[[(''item'', PInt 1)], [(''item'', PInt 2)], [(''item'', PInt 3)]]"]
  have "\<exists>m. drain_ctxts sample_env m (GFor [''item''] (Some ''items'') (GList loop_body)) loop_state =
           Some (Inr (map (\<lambda>ev. (ev, push [(''item'', PInt 1)] (ctxt loop_state))) loop_body @
                      map (\<lambda>ev. (ev, push [(''item'', PInt 2)] (ctxt loop_state))) loop_body @
                      map (\<lambda>ev. (ev, push [(''item'', PInt 3)] (ctxt loop_state))) loop_body,
                      loop_state))"
    by simp
  moreover
  from scope for_directive_balanced [OF ev, of "[''item'']" "GList loop_body" 5 loop_body loop_state
      "[PInt 1, PInt 2, PInt 3]" "[[(''item'', PInt 1)], [(''item'', PInt 2)], [(''item'', PInt 3)]]"
      "PInt 1" "[(''item'', PInt 1)]" "Suc 0" "[]"]
  have "pull sample_env (Suc (Suc 0)) (GForLoop [''item''] [PInt 1] loop_body) loop_state =
     Some (Inr (Some (Event START (DStart (html ''li'') []) (2, 2)),
                GForBody [''item''] [] loop_body (tl loop_body),
                loop_state\<lparr>ctxt := push [(''item'', PInt 1)] (ctxt loop_state)\<rparr>))"
    by (simp add: loop_body_def ok_def)
  moreover
  have "pull sample_env (Suc (Suc 0)) (GForBody [''item''] [] loop_body [])
       (loop_state\<lparr>ctxt := push [(''item'', PInt 1)] (ctxt loop_state)\<rparr>) =
     Some (Inr (None, GList [], loop_state))"
    by (simp add: pop_def push_def ok_def)
  ultimately show ?thesis
    using none ev0 ev src scopes scope by blast
qed


section \<open>Properties of the transform\<close>

text \<open>
  Claim C1 at the template
  \<^verbatim>\<open><div xmlns:py="http://purl.org/kid/ns#" py:strip="" py:attrs="foo"><b>x</b></div>\<close>,
  generated twice with \<^verbatim>\<open>foo = {'class': 'collapse'}\<close>.  Parsing sorts the
  directives of the \<^verbatim>\<open>SUB\<close> node into the canonical order \<^verbatim>\<open>[attrs, strip]\<close>.  The
  first \<^verbatim>\<open>generate\<close> reverses that list in place and applies \<^verbatim>\<open>strip\<close> first, so
  \<^verbatim>\<open>attrs\<close> meets the tag \<^verbatim>\<open>b\<close> and the output is \<^verbatim>\<open><b class="collapse">x</b>\<close>.  The list
  stays reversed in the template; the second \<^verbatim>\<open>generate\<close> reverses it again and so
  applies the canonical order itself, \<^verbatim>\<open>attrs\<close> first: the attribute goes to the
  \<^verbatim>\<open>div\<close> that \<^verbatim>\<open>strip\<close> then drops, and the output is \<^verbatim>\<open><b>x</b>\<close>.
\<close>

theorem generate_twice_order:
  "(case parse sample_parse_env attrs_strip_doc of
      Some (Inr s) \<Rightarrow>
        lists s 0 = [AttrsDirective (Some ''foo''), StripDirective None] \<and>
        (case generate sample_env id 20 (out s) (template_state s foo_ctxt) of
           Some (Inr (evs1, st1)) \<Rightarrow>
             evs1 = [Event START (DStart (html ''b'') [(html ''class'', AText ''collapse'')]) (1, 30),
                     Event TEXT (DText ''x'') (1, 33),
                     Event END (DName (html ''b'')) (1, 34)] \<and>
             dirlists st1 0 = [StripDirective None, AttrsDirective (Some ''foo'')] \<and>
             (case generate sample_env id 20 (out s) (st1\<lparr>ctxt := foo_ctxt\<rparr>) of
                Some (Inr (evs2, st2)) \<Rightarrow>
                  evs2 = [Event START (DStart (html ''b'') []) (1, 30),
                          Event TEXT (DText ''x'') (1, 33),
                          Event END (DName (html ''b'')) (1, 34)] \<and>
                  dirlists st2 0 = [AttrsDirective (Some ''foo''), StripDirective None]
              | _ \<Rightarrow> False)
         | _ \<Rightarrow> False)
    | _ \<Rightarrow> False)"
  by code_simp








section \<open>Properties of the capturing directives\<close>

lemma capture_on_every_call:
  assumes "drain E (Suc n) g st = Some (Inr (evs, st'))"
  shows "apply_directives E (Suc (Suc n)) [MatchDirective did path] g st =
           Some (Inr (GList [], st'\<lparr>captured := (captured st')(did := evs)\<rparr>)) \<and>
         (\<forall>c. setitem (ctxt st') name (PCallable did) = Inr c \<longrightarrow>
            apply_directives E (Suc (Suc n)) [DefDirective did name formals defaults] g st =
              Some (Inr (GList [], st'\<lparr>captured := (captured st')(did := evs), ctxt := c\<rparr>)))"
  using assms by (simp add: ok_def del: drain.simps)

lemma drain_GList_ge:
  "length evs + 2 \<le> n \<Longrightarrow> drain E n (GList evs) st = Some (Inr (evs, st))"
  using drain_GList by (rule drain_mono)

lemma sub_def_recaptures:
  assumes d: "dirlists st a = [DefDirective did name formals defaults]"
    and f: "filter_event E (ctxt st) (Event SUB (DSub a sub) p) = Inr [Event SUB (DSub a sub) p]"
    and s: "setitem (ctxt st) name (PCallable did) = Inr c"
  shows "drain E (length sub + 8) (mk_transform (GList [Event SUB (DSub a sub) p])) st =
           Some (Inr ([], st\<lparr>dirlists := (dirlists st)(a := [DefDirective did name formals defaults]),
                              captured := (captured st)(did := sub), ctxt := c\<rparr>))"
proof -
  have n: "length sub + 8 = Suc (Suc (Suc (Suc (Suc (Suc (length sub + 2))))))"
    by simp
  show ?thesis
    unfolding n mk_transform_def
    apply (subst drain.simps)
    apply (simp add: d f s ok_def drain_GList_ge mk_transform_def del: drain.simps)
    done
qed


text \<open>
  Claim C5, as amended.  Every evaluation captures anew.  When a \<^verbatim>\<open>SUB\<close> node that
  carries only a \<^verbatim>\<open>py:match\<close> or only a \<^verbatim>\<open>py:def\<close> directive is evaluated, in any
  store, the directive's \<^verbatim>\<open>stream\<close> afterwards is the substream of the node, whatever
  it was before, and the node yields no event.  In general, each call of the directive
  stores the list of the events of the stream it is given, replacing what was stored.
\<close>

theorem sub_recaptures_every_evaluation:
  assumes "filter_event E (ctxt st) (Event SUB (DSub a sub) p) = Inr [Event SUB (DSub a sub) p]"
  shows "(dirlists st a = [MatchDirective did path] \<longrightarrow>
            drain E (length sub + 8) (mk_transform (GList [Event SUB (DSub a sub) p])) st =
              Some (Inr ([], st\<lparr>dirlists := (dirlists st)(a := [MatchDirective did path]),
                                 captured := (captured st)(did := sub)\<rparr>))) \<and>
         (dirlists st a = [DefDirective did name formals defaults] \<and>
          setitem (ctxt st) name (PCallable did) = Inr c \<longrightarrow>
            drain E (length sub + 8) (mk_transform (GList [Event SUB (DSub a sub) p])) st =
              Some (Inr ([], st\<lparr>dirlists := (dirlists st)(a := [DefDirective did name formals defaults]),
                                 captured := (captured st)(did := sub), ctxt := c\<rparr>))) \<and>
         (\<forall>n g evs st'. drain E (Suc n) g st = Some (Inr (evs, st')) \<longrightarrow>
            apply_directives E (Suc (Suc n)) [MatchDirective did path] g st =
              Some (Inr (GList [], st'\<lparr>captured := (captured st')(did := evs)\<rparr>)) \<and>
            (\<forall>c'. setitem (ctxt st') name (PCallable did) = Inr c' \<longrightarrow>
               apply_directives E (Suc (Suc n)) [DefDirective did name formals defaults] g st =
                 Some (Inr (GList [], st'\<lparr>captured := (captured st')(did := evs), ctxt := c'\<rparr>))))"
proof -
  have n: "length sub + 8 = Suc (Suc (Suc (Suc (Suc (Suc (length sub + 2))))))"
    by simp
  have m: "drain E (length sub + 8) (mk_transform (GList [Event SUB (DSub a sub) p])) st =
              Some (Inr ([], st\<lparr>dirlists := (dirlists st)(a := [MatchDirective did path]),
                                 captured := (captured st)(did := sub)\<rparr>))"
    if d: "dirlists st a = [MatchDirective did path]"
    unfolding n mk_transform_def
    by (subst drain.simps)
       (simp add: d assms ok_def drain_GList_ge mk_transform_def del: drain.simps)
  from sub_def_recaptures [OF _ assms] m capture_on_every_call show ?thesis
    by blast
qed

theorem sub_recaptures_every_evaluation_witness:
  "filter_event sample_env (ctxt def_state) (Event SUB (DSub 0 recapture_sub) (4, 2)) =
     Inr [Event SUB (DSub 0 recapture_sub) (4, 2)] \<and>
   captured def_state 0 = [Event TEXT (DText ''old'') (1, 0)] \<and>
   (case drain sample_env 10 (mk_transform (GList [Event SUB (DSub 0 recapture_sub) (4, 2)])) def_state of
      Some (Inr (evs, st)) \<Rightarrow> evs = [] \<and> captured st 0 = recapture_sub
    | _ \<Rightarrow> False)"
proof -
  have f: "filter_event sample_env (ctxt def_state) (Event SUB (DSub 0 recapture_sub) (4, 2)) =
     Inr [Event SUB (DSub 0 recapture_sub) (4, 2)]"
    by (simp add: sample_env_def EvalFilter_def)
  have s: "setitem (ctxt def_state) ''echo'' (PCallable 0) = Inr \<lparr>stack = [[(''echo'', PCallable 0)]]\<rparr>"
    by (simp add: setitem_def def_state_def Context_init_def)
  have d: "dirlists def_state 0 = [DefDirective 0 ''echo'' [] []]"
    by (simp add: def_state_def)
  have l: "length recapture_sub + 8 = 10"
    by (simp add: recapture_sub_def)
  from sub_recaptures_every_evaluation [OF f, of 0 "''''" "''echo''" "[]" "[]"
      "\<lparr>stack = [[(''echo'', PCallable 0)]]\<rparr>"] s d
  have "drain sample_env (length recapture_sub + 8)
          (mk_transform (GList [Event SUB (DSub 0 recapture_sub) (4, 2)])) def_state =
        Some (Inr ([], def_state\<lparr>dirlists := (dirlists def_state)(0 := [DefDirective 0 ''echo'' [] []]),
                                 captured := (captured def_state)(0 := recapture_sub),
                                 ctxt := \<lparr>stack = [[(''echo'', PCallable 0)]]\<rparr>\<rparr>))"
    by blast
  then show ?thesis
    unfolding l using f by (simp add: def_state_def del: drain.simps)
qed


text \<open>
  Claim C5, as stated, fails at the template
  \<^verbatim>\<open><div xmlns:py="http://purl.org/kid/ns#" py:def="echo" py:strip=""><b>x</b></div>\<close>,
  generated twice: the first evaluation captures the stripped body, the second one
  overwrites it with the whole element.
\<close>

theorem def_recaptures_counterexample:
  "(case parse sample_parse_env def_strip_doc of
      Some (Inr s) \<Rightarrow>
        (case generate sample_env id 20 (out s) (template_state s (Context_init [])) of
           Some (Inr (evs1, st1)) \<Rightarrow>
             captured st1 0 =
               [Event START (DStart (html ''b'') []) (1, 30),
                Event TEXT (DText ''x'') (1, 33),
                Event END (DName (html ''b'')) (1, 34)] \<and>
             (case generate sample_env id 20 (out s) (st1\<lparr>ctxt := Context_init []\<rparr>) of
                Some (Inr (evs2, st2)) \<Rightarrow>
                  captured st2 0 =
                    [Event START (DStart (html ''div'') []) (1, 0),
                     Event START (DStart (html ''b'') []) (1, 30),
                     Event TEXT (DText ''x'') (1, 33),
                     Event END (DName (html ''b'')) (1, 34),
                     Event END (DName (html ''div'')) (1, 38)]
              | _ \<Rightarrow> False)
         | _ \<Rightarrow> False)
    | _ \<Rightarrow> False)"
  by code_simp


section \<open>Properties of directive-free templates\<close>

text \<open>Interpolation yields \<^verbatim>\<open>TEXT\<close> and \<^verbatim>\<open>EXPR\<close> events only.\<close>

lemma interpolate_groups_not_sub:
  assumes "\<And>ps text evs ps'. recur ps text = Some (Inr (evs, ps')) \<Longrightarrow> list_all not_sub evs"
  shows "interpolate_groups recur p idx grps patterns = Some (Inr (evs, ps')) \<Longrightarrow> list_all not_sub evs"
proof (induction grps arbitrary: idx patterns evs ps')
  case Nil
  then show ?case by simp
next
  case (Cons grp grps)
  from Cons.prems show ?case
    using Cons.IH assms
    by (auto split: if_splits option.splits sum.splits prod.splits)
qed

lemma interpolate_inner_not_sub:
  "interpolate_inner n p patterns tx = Some (Inr (evs, ps')) \<Longrightarrow> list_all not_sub evs"
proof (induction n arbitrary: patterns tx evs ps')
  case 0
  then show ?case by simp
next
  case (Suc n)
  from Suc.prems obtain pat pats where pats: "patterns = pat # pats"
    by (cases patterns) auto
  from Suc.prems have
    "interpolate_groups (interpolate_inner n p) p 0 (split pat tx) pats = Some (Inr (evs, ps'))"
    by (simp add: pats)
  then show ?case
    using interpolate_groups_not_sub [of "interpolate_inner n p"] Suc.IH by blast
qed

lemma interpolate_not_sub:
  assumes "interpolate tx p = Some (Inr evs)"
  shows "list_all not_sub evs"
proof -
  from assms obtain ps where
    "interpolate_inner 2 p [FULL_EXPR_RE, SHORT_EXPR_RE] tx = Some (Inr (evs, ps))"
    unfolding interpolate_def
    by (cases "interpolate_inner 2 p [FULL_EXPR_RE, SHORT_EXPR_RE] tx")
       (auto simp: map_sum_def split: sum.splits)
  then show ?thesis by (rule interpolate_inner_not_sub)
qed

text \<open>Text without a dollar sign is one \<^verbatim>\<open>TEXT\<close> event, or none when it is empty.\<close>

lemma not_expr_Event [simp]: "not_expr (Event k d p) = (k \<noteq> EXPR)"
  unfolding not_expr_def by simp

lemma re_split_no_dollar:
  "CHR ''$'' \<notin> set cs \<Longrightarrow> re_split pat d acc cs = [acc @ cs]"
  by (induction cs arbitrary: d acc) auto

lemma replace_dollars_no_dollar:
  "CHR ''$'' \<notin> set cs \<Longrightarrow> replace_dollars cs = cs"
  by (induction cs rule: replace_dollars.induct) auto

lemma interpolate_no_dollar:
  assumes "CHR ''$'' \<notin> set tx"
  shows "interpolate tx p = Some (Inr (if tx = [] then [] else [Event TEXT (DText tx) p]))"
proof (cases "tx = []")
  case True
  then show ?thesis
    by (simp add: interpolate_def numeral_2_eq_2 split_def)
next
  case False
  have s: "split pat tx = [tx]" for pat
    using assms by (simp add: split_def re_split_no_dollar)
  have one: "interpolate_inner (Suc 0) p [SHORT_EXPR_RE] tx =
      Some (Inr ([Event TEXT (DText tx) p], []))"
    using assms False by (simp add: s replace_dollars_no_dollar)
  have "interpolate_inner (Suc (Suc 0)) p [FULL_EXPR_RE, SHORT_EXPR_RE] tx =
      interpolate_groups (interpolate_inner (Suc 0) p) p 0 [tx] [SHORT_EXPR_RE]"
    by (simp add: s del: interpolate_groups.simps)
  also have "\<dots> = Some (Inr ([Event TEXT (DText tx) p], []))"
    using False one by (simp del: interpolate_inner.simps)
  finally show ?thesis
    using False by (simp add: interpolate_def numeral_2_eq_2 del: interpolate_inner.simps)
qed

text \<open>Without directive attributes the pending map of \<^verbatim>\<open>parse\<close> stays empty and no
  \<^verbatim>\<open>SUB\<close> event is made.\<close>

lemma parse_attrib_no_directives:
  "list_all (\<lambda>(name, v). namespace name \<noteq> Some NAMESPACE) attrib \<Longrightarrow>
   parse_attrib P p attrib ds new_attrib did flt = Some (Inr (ds', new', did', flt')) \<Longrightarrow>
   ds' = ds"
proof (induction attrib arbitrary: new_attrib)
  case Nil
  then show ?case by (simp add: ok_def)
next
  case (Cons a attrib)
  obtain name v where a: "a = (name, v)" by (cases a)
  from Cons.prems show ?case
    using Cons.IH
    by (auto simp: a raise_def bind_res_def split: attrval.splits option.splits sum.splits)
qed

lemma parse_event_invariant:
  assumes "parse_event P s ev = Some (Inr s')"
    and "no_directive_attrs ev" and "not_sub ev"
    and "dirmap s = []" and "list_all not_sub (out s)"
  shows "dirmap s' = [] \<and> list_all not_sub (out s')"
proof -
  obtain k d p where ev: "ev = Event k d p" by (cases ev)
  consider "k = START_NS" | "k = END_NS" | "k = START" | "k = END" | "k = TEXT"
    | "k \<noteq> START_NS" "k \<noteq> END_NS" "k \<noteq> START" "k \<noteq> END" "k \<noteq> TEXT"
    by blast
  then show ?thesis
  proof cases
    case 1
    with assms show ?thesis
      by (auto simp: ev parse_event_def ok_def raise_def
          split: data.splits list.splits if_splits)
  next
    case 2
    with assms show ?thesis
      by (auto simp: ev parse_event_def ok_def raise_def
          split: data.splits list.splits if_splits)
  next
    case 3
    from assms(1) obtain tag attrib where d: "d = DStart tag attrib"
      by (cases d) (auto simp: ev 3 parse_event_def raise_def)
    from assms(1) obtain ds new_attrib did flt where
      pa: "parse_attrib P p attrib [] [] (next_directive s) (filters s) =
             Some (Inr (ds, new_attrib, did, flt))"
      by (auto simp: ev 3 d parse_event_def bind_res_def split: option.splits sum.splits)
    from assms(2) have "list_all (\<lambda>(name, v). namespace name \<noteq> Some NAMESPACE) attrib"
      by (simp add: ev d)
    from parse_attrib_no_directives [OF this pa] have ds: "ds = []" .
    from assms(1) have "s' = s\<lparr>next_directive := did, filters := flt,
        out := out s @ [Event START (DStart tag new_attrib) p], depth := depth s + 1\<rparr>"
      by (simp add: ev 3 d parse_event_def pa ds ok_def)
    with assms(4,5) show ?thesis
      by simp
  next
    case 4
    with assms show ?thesis
      by (auto simp: ev parse_event_def ok_def raise_def Let_def
          split: data.splits if_splits)
  next
    case 5
    from assms(1) obtain tx where d: "d = DText tx"
      by (cases d) (auto simp: ev 5 parse_event_def raise_def)
    from assms(1) obtain evs where
      i: "interpolate tx p = Some (Inr evs)" and s': "s' = s\<lparr>out := out s @ evs\<rparr>"
      by (auto simp: ev 5 d parse_event_def bind_res_def ok_def split: option.splits sum.splits)
    from interpolate_not_sub [OF i] assms(4,5) s' show ?thesis
      by simp
  next
    case 6
    with assms show ?thesis
      by (auto simp: ev parse_event_def ok_def)
  qed
qed

lemma parse_events_invariant:
  "parse_events P s source = Some (Inr s') \<Longrightarrow>
   list_all no_directive_attrs source \<Longrightarrow> list_all not_sub source \<Longrightarrow>
   dirmap s = [] \<Longrightarrow> list_all not_sub (out s) \<Longrightarrow>
   dirmap s' = [] \<and> list_all not_sub (out s')"
proof (induction source arbitrary: s)
  case Nil
  then show ?case by (simp add: ok_def)
next
  case (Cons ev source)
  from Cons.prems(1) obtain s1 where
    one: "parse_event P s ev = Some (Inr s1)" and rest: "parse_events P s1 source = Some (Inr s')"
    by (auto simp: bind_res_def split: option.splits sum.splits)
  from parse_event_invariant [OF one] Cons.prems have
    "dirmap s1 = []" "list_all not_sub (out s1)" by auto
  with Cons.IH [OF rest] Cons.prems show ?case by simp
qed

lemma parse_stream_not_sub:
  assumes "parse_stream P source = Some (Inr stream)"
    and "list_all no_directive_attrs source" and "list_all not_sub source"
  shows "list_all not_sub stream"
proof -
  from assms(1) obtain s where
    "parse_events P parse_init source = Some (Inr s)" and "stream = out s"
    unfolding parse_stream_def parse_def
    by (cases "parse_events P parse_init source") (auto simp: map_sum_def split: sum.splits)
  with parse_events_invariant [of P parse_init source s] assms(2,3) show ?thesis
    by (simp add: parse_init_def)
qed

text \<open>Without expressions in the input no \<^verbatim>\<open>EXPR\<close> event is made.\<close>

lemma parse_event_no_expression:
  assumes "parse_event P s ev = Some (Inr s')"
    and "no_directive_attrs ev" and "not_sub ev" and "no_expression ev"
    and "dirmap s = []" and "list_all not_expr (out s)"
  shows "list_all not_expr (out s')"
proof -
  obtain k d p where ev: "ev = Event k d p" by (cases ev)
  consider "k = START_NS" | "k = END_NS" | "k = START" | "k = END" | "k = TEXT"
    | "k \<noteq> START_NS" "k \<noteq> END_NS" "k \<noteq> START" "k \<noteq> END" "k \<noteq> TEXT"
    by blast
  then show ?thesis
  proof cases
    case 1
    with assms show ?thesis
      by (auto simp: ev parse_event_def ok_def raise_def
          split: data.splits list.splits if_splits)
  next
    case 2
    with assms show ?thesis
      by (auto simp: ev parse_event_def ok_def raise_def
          split: data.splits list.splits if_splits)
  next
    case 3
    from assms(1) obtain tag attrib where d: "d = DStart tag attrib"
      by (cases d) (auto simp: ev 3 parse_event_def raise_def)
    from assms(1) obtain ds new_attrib did flt where
      pa: "parse_attrib P p attrib [] [] (next_directive s) (filters s) =
             Some (Inr (ds, new_attrib, did, flt))"
      by (auto simp: ev 3 d parse_event_def bind_res_def split: option.splits sum.splits)
    from assms(2) have "list_all (\<lambda>(name, v). namespace name \<noteq> Some NAMESPACE) attrib"
      by (simp add: ev d)
    from parse_attrib_no_directives [OF this pa] have ds: "ds = []" .
    from assms(1) have "s' = s\<lparr>next_directive := did, filters := flt,
        out := out s @ [Event START (DStart tag new_attrib) p], depth := depth s + 1\<rparr>"
      by (simp add: ev 3 d parse_event_def pa ds ok_def)
    with assms(6) show ?thesis
      by simp
  next
    case 4
    with assms show ?thesis
      by (auto simp: ev parse_event_def ok_def raise_def Let_def
          split: data.splits if_splits)
  next
    case 5
    from assms(1) obtain tx where d: "d = DText tx"
      by (cases d) (auto simp: ev 5 parse_event_def raise_def)
    from assms(4) have "CHR ''$'' \<notin> set tx"
      by (simp add: ev 5 d)
    from interpolate_no_dollar [OF this, of p] assms(1) have
      "s' = s\<lparr>out := out s @ (if tx = [] then [] else [Event TEXT (DText tx) p])\<rparr>"
      by (auto simp: ev 5 d parse_event_def bind_res_def ok_def split: option.splits sum.splits)
    with assms(6) show ?thesis
      by simp
  next
    case 6
    with assms show ?thesis
      by (auto simp: ev parse_event_def ok_def)
  qed
qed

lemma parse_events_no_expression:
  "parse_events P s source = Some (Inr s') \<Longrightarrow>
   list_all no_directive_attrs source \<Longrightarrow> list_all not_sub source \<Longrightarrow>
   list_all no_expression source \<Longrightarrow>
   dirmap s = [] \<Longrightarrow> list_all not_sub (out s) \<Longrightarrow> list_all not_expr (out s) \<Longrightarrow>
   list_all not_expr (out s')"
proof (induction source arbitrary: s)
  case Nil
  then show ?case by (simp add: ok_def)
next
  case (Cons ev source)
  from Cons.prems(1) obtain s1 where
    one: "parse_event P s ev = Some (Inr s1)" and rest: "parse_events P s1 source = Some (Inr s')"
    by (auto simp: bind_res_def split: option.splits sum.splits)
  from parse_event_invariant [OF one] Cons.prems have
    "dirmap s1 = []" "list_all not_sub (out s1)" by auto
  moreover from parse_event_no_expression [OF one] Cons.prems have
    "list_all not_expr (out s1)" by auto
  ultimately show ?case
    using Cons.IH [OF rest] Cons.prems by simp
qed

lemma parse_stream_no_expression:
  assumes "parse_stream P source = Some (Inr stream)"
    and "list_all no_directive_attrs source" and "list_all not_sub source"
    and "list_all no_expression source"
  shows "list_all not_expr stream"
proof -
  from assms(1) obtain s where
    "parse_events P parse_init source = Some (Inr s)" and "stream = out s"
    unfolding parse_stream_def parse_def
    by (cases "parse_events P parse_init source") (auto simp: map_sum_def split: sum.splits)
  with parse_events_no_expression [of P parse_init source s] assms(2,3,4) show ?thesis
    by (simp add: parse_init_def)
qed

text \<open>The filters over a list, and the loop of \<^verbatim>\<open>_transform\<close> over a source that
  yields no \<^verbatim>\<open>SUB\<close> event, run to the end and pass every event on.\<close>

lemma filter_drains:
  "filter_all E (ctxt st) evs = Inr outp \<Longrightarrow>
   \<exists>n. drain E n (GFilter pending (GList evs)) st = Some (Inr (pending @ outp, st))"
proof (induction evs arbitrary: pending outp)
  case Nil
  then have outp: "outp = []" by simp
  show ?case
  proof (induction pending)
    case Nil
    have "pull E (Suc (Suc 0)) (GFilter [] (GList [])) st = Some (Inr (None, GList [], st))"
      by (simp add: ok_def)
    from drains_end [OF this]
    have "\<exists>n. drain E n (GFilter [] (GList [])) st = Some (Inr ([], st))"
      by blast
    then show ?case
      by (simp add: outp)
  next
    case (Cons x pending)
    then obtain n where
      "drain E n (GFilter pending (GList [])) st = Some (Inr (pending @ outp, st))" ..
    moreover have "pull E (Suc 0) (GFilter (x # pending) (GList [])) st =
        Some (Inr (Some x, GFilter pending (GList []), st))"
      by (simp add: ok_def)
    ultimately show ?case
      using drains_yield by fastforce
  qed
next
  case (Cons ev evs)
  from Cons.prems obtain first rest where
    f: "filter_event E (ctxt st) ev = Inr first" and r: "filter_all E (ctxt st) evs = Inr rest"
    and outp: "outp = first @ rest"
    by (auto split: sum.splits)
  show ?case
  proof (induction pending)
    case Nil
    from Cons.IH [OF r, of first] obtain n where
      run: "drain E n (GFilter first (GList evs)) st = Some (Inr (first @ rest, st))" ..
    have "pull E (Suc k) (GFilter [] (GList (ev # evs))) st = pull E k (GFilter first (GList evs)) st"
      if "1 \<le> k" for k
    proof -
      from that obtain j where "k = Suc j" by (cases k) auto
      then show ?thesis by (simp add: ok_def f)
    qed
    from drains_silent [OF this run] show ?case
      by (simp add: outp)
  next
    case (Cons x pending)
    then obtain n where
      "drain E n (GFilter pending (GList (ev # evs))) st = Some (Inr (pending @ outp, st))" ..
    moreover have "pull E (Suc 0) (GFilter (x # pending) (GList (ev # evs))) st =
        Some (Inr (Some x, GFilter pending (GList (ev # evs)), st))"
      by (simp add: ok_def)
    ultimately show ?case
      using drains_yield by fastforce
  qed
qed

lemma transform_passes:
  "drain E n src st = Some (Inr (evs, st')) \<Longrightarrow> list_all not_sub evs \<Longrightarrow>
   \<exists>m. drain E m (GTransform src p None) st = Some (Inr (evs, st'))"
proof (induction n arbitrary: src st evs p)
  case 0
  then show ?case by simp
next
  case (Suc n)
  from Suc.prems(1) obtain evo src1 st1 where
    pl: "pull E n src st = Some (Inr (evo, src1, st1))"
    by (auto simp: bind_res_def split: option.splits sum.splits)
  show ?case
  proof (cases evo)
    case None
    with Suc.prems(1) pl have e: "evs = []" "st' = st1" by (simp_all add: ok_def)
    from pl None have "pull E (Suc n) (GTransform src p None) st = Some (Inr (None, GList [], st1))"
      by (simp add: ok_def)
    from drains_end [OF this] show ?thesis
      unfolding e by blast
  next
    case (Some ev)
    with Suc.prems(1) pl obtain evs1 where
      d: "drain E n src1 st1 = Some (Inr (evs1, st'))" and evs: "evs = ev # evs1"
      by (auto simp: bind_res_def ok_def split: option.splits sum.splits)
    obtain k d' p' where ev: "ev = Event k d' p'" by (cases ev)
    from Suc.prems(2) evs ev have k: "k \<noteq> SUB" and rest: "list_all not_sub evs1"
      by simp_all
    from Suc.IH [OF d rest, of "Some p'"] obtain m where
      run: "drain E m (GTransform src1 (Some p') None) st1 = Some (Inr (evs1, st'))" ..
    from pl Some ev k have
      "pull E (Suc n) (GTransform src p None) st =
         Some (Inr (Some ev, GTransform src1 (Some p') None, st1))"
      by (simp add: ok_def)
    from drains_yield [OF this run] show ?thesis
      unfolding evs .
  qed
qed

lemma filter_all_unchanged:
  "\<forall>ev\<in>set stream. filter_event E c ev = Inr [ev] \<Longrightarrow> filter_all E c stream = Inr stream"
  by (induction stream) auto

lemma generate_passes:
  assumes "filter_all E (ctxt st) stream = Inr evs" and "list_all not_sub evs"
  shows "(\<exists>n. generate E post n stream st = Some (Inr (post evs, st))) \<and>
         (\<forall>n r. generate E post n stream st = Some r \<longrightarrow> r = Inr (post evs, st))"
proof -
  from filter_drains [OF assms(1), of "[]"] obtain n0 where
    "drain E n0 (GFilter [] (GList stream)) st = Some (Inr (evs, st))" by auto
  from transform_passes [OF this assms(2), of None] obtain m where
    m: "drain E m (mk_transform (GList stream)) st = Some (Inr (evs, st))"
    by (auto simp: mk_transform_def)
  then have g: "generate E post m stream st = Some (Inr (post evs, st))"
    by (simp add: generate_def ok_def)
  have "r = Inr (post evs, st)" if "generate E post n stream st = Some r" for n r
  proof -
    from that have "generate E post (max n m) stream st = Some r"
      by (rule generate_mono) simp
    moreover from g have "generate E post (max n m) stream st = Some (Inr (post evs, st))"
      by (rule generate_mono) simp
    ultimately show ?thesis by simp
  qed
  with g show ?thesis by blast
qed

text \<open>
  Claim C8, as amended.  Let the input carry no directive attribute (and, as the markup
  parser guarantees, no \<^verbatim>\<open>SUB\<close> event).  Then the parsed stream holds no \<^verbatim>\<open>SUB\<close> event.

  For any context in which the pre-filters and runtime filters run over the parsed
  stream without error and make no \<^verbatim>\<open>SUB\<close> event, \<^verbatim>\<open>generate\<close> returns the post-filtered
  list of the events that these filters make of the parsed stream, with the store
  untouched: the recursive transform itself changes nothing.  Every run that returns
  returns this.

  If moreover the input holds no expression (no \<^verbatim>\<open>EXPR\<close> event and no dollar sign in its
  text), the parsed stream holds no \<^verbatim>\<open>EXPR\<close> event; and if the filters leave every event
  of the parsed stream that is no \<^verbatim>\<open>EXPR\<close> event as it is, \<^verbatim>\<open>generate\<close> returns the
  post-filtered parsed stream itself.
\<close>

theorem generate_without_directives:
  assumes "parse_stream P source = Some (Inr stream)"
    and "list_all no_directive_attrs source" and "list_all not_sub source"
  shows "list_all not_sub stream \<and>
         (filter_all E (ctxt st) stream = Inr evs \<and> list_all not_sub evs \<longrightarrow>
            (\<exists>n. generate E post n stream st = Some (Inr (post evs, st))) \<and>
            (\<forall>n r. generate E post n stream st = Some r \<longrightarrow> r = Inr (post evs, st))) \<and>
         (list_all no_expression source \<and>
          (\<forall>ev\<in>set stream. not_expr ev \<longrightarrow> filter_event E (ctxt st) ev = Inr [ev]) \<longrightarrow>
            list_all not_expr stream \<and>
            (\<exists>n. generate E post n stream st = Some (Inr (post stream, st))) \<and>
            (\<forall>n r. generate E post n stream st = Some r \<longrightarrow> r = Inr (post stream, st)))"
proof (intro conjI impI)
  show ns: "list_all not_sub stream"
    using assms by (rule parse_stream_not_sub)
  {
    assume "filter_all E (ctxt st) stream = Inr evs \<and> list_all not_sub evs"
    then have "(\<exists>n. generate E post n stream st = Some (Inr (post evs, st))) \<and>
         (\<forall>n r. generate E post n stream st = Some r \<longrightarrow> r = Inr (post evs, st))"
      using generate_passes by blast
    then show "\<exists>n. generate E post n stream st = Some (Inr (post evs, st))"
      and "\<forall>n r. generate E post n stream st = Some r \<longrightarrow> r = Inr (post evs, st)"
      by blast+
  }
  {
    assume a: "list_all no_expression source \<and>
          (\<forall>ev\<in>set stream. not_expr ev \<longrightarrow> filter_event E (ctxt st) ev = Inr [ev])"
    with assms show ne: "list_all not_expr stream"
      using parse_stream_no_expression by blast
    from ne a have "\<forall>ev\<in>set stream. filter_event E (ctxt st) ev = Inr [ev]"
      by (simp add: list_all_iff)
    then have "filter_all E (ctxt st) stream = Inr stream"
      by (rule filter_all_unchanged)
    from generate_passes [OF this ns, of post]
    show "\<exists>n. generate E post n stream st = Some (Inr (post stream, st))"
      and "\<forall>n r. generate E post n stream st = Some r \<longrightarrow> r = Inr (post stream, st)"
      by blast+
  }
qed

theorem generate_without_directives_witness:
  "parse_stream sample_parse_env expr_doc = Some (Inr expr_stream) \<and>
   list_all no_directive_attrs expr_doc \<and> list_all not_sub expr_doc \<and>
   filter_all sample_env (ctxt expr_state) expr_stream = Inr expr_output \<and>
   list_all not_sub expr_output \<and> list_all not_sub expr_stream \<and>
   (\<exists>n. generate sample_env WhitespaceFilter n expr_stream expr_state =
          Some (Inr (WhitespaceFilter expr_output, expr_state))) \<and>
   parse_stream sample_parse_env plain_doc = Some (Inr plain_stream) \<and>
   list_all no_directive_attrs plain_doc \<and> list_all not_sub plain_doc \<and>
   list_all no_expression plain_doc \<and>
   list_all not_expr plain_stream \<and>
   list_all (\<lambda>ev. filter_event sample_env (ctxt expr_state) ev = Inr [ev]) plain_stream \<and>
   (\<exists>n. generate sample_env WhitespaceFilter n plain_stream expr_state =
          Some (Inr (WhitespaceFilter plain_stream, expr_state)))"
proof -
  have h1: "parse_stream sample_parse_env expr_doc = Some (Inr expr_stream)"
    by code_simp
  have h2: "list_all no_directive_attrs expr_doc"
    by code_simp
  have h3: "list_all not_sub expr_doc"
    by code_simp
  have h4: "filter_all sample_env (ctxt expr_state) expr_stream = Inr expr_output"
    by code_simp
  have h5: "list_all not_sub expr_output"
    by code_simp
  have p1: "parse_stream sample_parse_env plain_doc = Some (Inr plain_stream)"
    by code_simp
  have p2: "list_all no_directive_attrs plain_doc"
    by code_simp
  have p3: "list_all not_sub plain_doc"
    by code_simp
  have p4: "list_all no_expression plain_doc"
    by (simp add: plain_doc_def)
  have p5: "list_all (\<lambda>ev. filter_event sample_env (ctxt expr_state) ev = Inr [ev]) plain_stream"
    by (simp add: plain_stream_def sample_env_def EvalFilter_def)
  then have p6: "\<forall>ev\<in>set plain_stream. not_expr ev \<longrightarrow>
      filter_event sample_env (ctxt expr_state) ev = Inr [ev]"
    by (simp add: list_all_iff)
  from generate_without_directives [OF h1 h2 h3, of sample_env expr_state expr_output
      WhitespaceFilter] h4 h5
  have a: "list_all not_sub expr_stream \<and>
    (\<exists>n. generate sample_env WhitespaceFilter n expr_stream expr_state =
          Some (Inr (WhitespaceFilter expr_output, expr_state)))"
    by blast
  from generate_without_directives [OF p1 p2 p3, of sample_env expr_state "[]"
      WhitespaceFilter] p4 p6
  have b: "list_all not_expr plain_stream \<and>
    (\<exists>n. generate sample_env WhitespaceFilter n plain_stream expr_state =
          Some (Inr (WhitespaceFilter plain_stream, expr_state)))"
    by blast
  from a b h1 h2 h3 h4 h5 p1 p2 p3 p4 p5 show ?thesis by blast
qed


text \<open>
  Claim C8, as stated, fails at \<^verbatim>\<open><p class="a">$x</p>\<close> with \<^verbatim>\<open>x = 'hi'\<close>: the input has
  no directive attribute, the parsed stream holds the event \<^verbatim>\<open>EXPR x\<close>, and the output
  of \<^verbatim>\<open>generate\<close> holds the text \<^verbatim>\<open>hi\<close> in its place, so it is not the
  whitespace-filtered parsed stream.
\<close>

theorem generate_evaluates_counterexample:
  "list_all no_directive_attrs expr_doc \<and>
   (case parse_stream sample_parse_env expr_doc of
      Some (Inr stream) \<Rightarrow>
        stream = expr_stream \<and>
        (case generate sample_env WhitespaceFilter 20 stream expr_state of
           Some (Inr (evs, st)) \<Rightarrow> evs = expr_output \<and> evs \<noteq> WhitespaceFilter stream
         | _ \<Rightarrow> False)
    | _ \<Rightarrow> False)"
  by code_simp


end
